theory Spec2Isabelle
  imports Complex_Main "HOL-Library.Char_ord" "HOL-Library.Monad_Syntax"
begin

section \<open>The release script of git-iris: scripts/release.py\<close>

text \<open>
  The script is one Python module. Its pure parts are three regular expressions over the
  text of \<^verbatim>\<open>Cargo.toml\<close> and over the operator's answer, a gradient generator and
  a centring function for the banner; its effectful part is \<^verbatim>\<open>main\<close>, a linear
  sequence of checks, prompts and external commands.

  The text of the manifest and the answers of the operator are modelled as
  \<^typ>\<open>string\<close>: a list of characters whose codes are the code points 0 to 255. The
  character classes of \<^verbatim>\<open>re\<close> for the version patterns are given on that range. The
  texts of the banner are lists of code points without a bound.
\<close>

subsection \<open>Characters and character classes\<close>

definition newline :: char where
  "newline = CHR 0x0A"

definition dquote :: char where
  "dquote = CHR 0x22"

definition ESC :: char where
  "ESC = CHR 0x1B"

definition backslash :: char where
  "backslash = CHR 0x5C"

definition CR :: char where
  "CR = CHR 0x0D"

text \<open>\<^verbatim>\<open>\d\<close> of a \<^verbatim>\<open>str\<close> pattern: the decimal digits (category Nd); below 256
  these are \<^verbatim>\<open>0\<close> to \<^verbatim>\<open>9\<close>.\<close>

definition is_digit :: "char \<Rightarrow> bool" where
  "is_digit c \<longleftrightarrow> CHR ''0'' \<le> c \<and> c \<le> CHR ''9''"

text \<open>\<^verbatim>\<open>\s\<close> of a \<^verbatim>\<open>str\<close> pattern, which is also what \<^verbatim>\<open>str.strip\<close> removes:
  the characters with \<^verbatim>\<open>str.isspace\<close>; below 256 these are TAB, LF, VT, FF, CR,
  the separators 0x1C to 0x1F, the space, NEL (0x85) and the no-break space (0xA0).\<close>

definition is_space :: "char \<Rightarrow> bool" where
  "is_space c \<longleftrightarrow>
     (CHR 0x09 \<le> c \<and> c \<le> CHR 0x0D) \<or> (CHR 0x1C \<le> c \<and> c \<le> CHR 0x20) \<or>
     c = CHR 0x85 \<or> c = CHR 0xA0"

subsection \<open>The pieces of the two version patterns\<close>

text \<open>
  Both patterns are sequences of literals and of greedy repetitions of one character
  class, and every repetition is followed by a literal outside its class (\<^verbatim>\<open>\s*\<close> by
  \<^verbatim>\<open>=\<close> or by the quote, \<^verbatim>\<open>\d+\<close> by the dot or by the quote). A backtracking
  matcher therefore finds at most one match per start position: the one in which every
  repetition takes the longest run. The matchers below scan that way and return what is
  left of the text after the match.
\<close>

text \<open>A literal: the text after it, if the text starts with it.\<close>

fun lit :: "string \<Rightarrow> string \<Rightarrow> string option" where
  "lit [] s = Some s"
| "lit (p # ps) [] = None"
| "lit (p # ps) (c # cs) = (if p = c then lit ps cs else None)"

text \<open>\<^verbatim>\<open>\d+\<close>: the longest run of digits, which must not be empty, and the rest.\<close>

definition digits1 :: "string \<Rightarrow> (string \<times> string) option" where
  "digits1 s = (if takeWhile is_digit s = [] then None
                else Some (takeWhile is_digit s, dropWhile is_digit s))"

text \<open>\<^verbatim>\<open>\d+\.\d+\.\d+\<close>: the matched text and the rest.\<close>

definition triple :: "string \<Rightarrow> (string \<times> string) option" where
  "triple s = do {
     (a, r1) \<leftarrow> digits1 s;
     r2 \<leftarrow> lit ''.'' r1;
     (b, r3) \<leftarrow> digits1 r2;
     r4 \<leftarrow> lit ''.'' r3;
     (c, r5) \<leftarrow> digits1 r4;
     Some (a @ ''.'' @ b @ ''.'' @ c, r5)
   }"

text \<open>\<^verbatim>\<open>version\s*=\s*\<close>: the matched text (group 1 of the pattern of
  \<^verbatim>\<open>update_version\<close>) and the rest.\<close>

definition assign_prefix :: "string \<Rightarrow> (string \<times> string) option" where
  "assign_prefix s = do {
     r1 \<leftarrow> lit ''version'' s;
     r2 \<leftarrow> lit ''='' (dropWhile is_space r1);
     Some (''version'' @ takeWhile is_space r1 @ ''='' @ takeWhile is_space r2,
           dropWhile is_space r2)
   }"

text \<open>\<^verbatim>\<open>version\s*=\s*"(\d+\.\d+\.\d+)"\<close> at the start of the text: the assignment
  prefix, the digit triple between the quotes, and the text after the closing quote.\<close>

definition version_at :: "string \<Rightarrow> (string \<times> string \<times> string) option" where
  "version_at s = do {
     (g, r1) \<leftarrow> assign_prefix s;
     r2 \<leftarrow> lit [dquote] r1;
     (t, r3) \<leftarrow> triple r2;
     r4 \<leftarrow> lit [dquote] r3;
     Some (g, t, r4)
   }"

subsection \<open>What the patterns match\<close>

text \<open>
  The texts the patterns describe, in the words of the pattern: a number is a non-empty
  string of digits, a blank a string of whitespace, and an occurrence is
  \<^verbatim>\<open>version\<close>, a blank, \<^verbatim>\<open>=\<close>, a blank and a quoted triple of numbers.
\<close>

definition number :: "string \<Rightarrow> bool" where
  "number a \<longleftrightarrow> a \<noteq> [] \<and> list_all is_digit a"

definition blank :: "string \<Rightarrow> bool" where
  "blank ws \<longleftrightarrow> list_all is_space ws"

definition dotted :: "string \<Rightarrow> string \<Rightarrow> string \<Rightarrow> string" where
  "dotted a b c = a @ ''.'' @ b @ ''.'' @ c"

definition assignment :: "string \<Rightarrow> string \<Rightarrow> string" where
  "assignment ws1 ws2 = ''version'' @ ws1 @ ''='' @ ws2"

lemma lit_Some: "lit p s = Some r \<Longrightarrow> s = p @ r"
  by (induction p s rule: lit.induct) (auto split: if_splits)

lemma lit_append: "lit p (p @ s) = Some s"
  by (induction p) auto

lemma run_takeWhile:
  assumes "list_all P a" "r = [] \<or> \<not> P (hd r)"
  shows "takeWhile P (a @ r) = a" and "dropWhile P (a @ r) = r"
proof -
  from assms(1) have all: "\<And>x. x \<in> set a \<Longrightarrow> P x"
    by (simp add: list_all_iff)
  from assms(2) have "takeWhile P r = []" and "dropWhile P r = r"
    by (cases r; simp)+
  with all show "takeWhile P (a @ r) = a" and "dropWhile P (a @ r) = r"
    by (simp_all add: takeWhile_append2 dropWhile_append2)
qed

lemma digits1_run:
  assumes "number a" "r = [] \<or> \<not> is_digit (hd r)"
  shows "digits1 (a @ r) = Some (a, r)"
  using assms run_takeWhile [of is_digit a r]
  by (simp add: digits1_def number_def)

lemma digits1_Some:
  assumes "digits1 s = Some (a, r)"
  shows "s = a @ r \<and> number a \<and> (r = [] \<or> \<not> is_digit (hd r))"
proof -
  from assms have a: "a = takeWhile is_digit s" and r: "r = dropWhile is_digit s"
    and ne: "a \<noteq> []"
    by (auto simp: digits1_def split: if_splits)
  have "list_all is_digit a"
    unfolding a list_all_iff by (auto dest: set_takeWhileD)
  moreover have "r = [] \<or> \<not> is_digit (hd r)"
    unfolding r using hd_dropWhile [of is_digit s] by blast
  ultimately show ?thesis
    using a r ne by (simp add: number_def)
qed

lemma not_digit_dot: "\<not> is_digit CHR ''.''"
  by (simp add: is_digit_def)

lemma triple_run:
  assumes "number a" "number b" "number c" "r = [] \<or> \<not> is_digit (hd r)"
  shows "triple (dotted a b c @ r) = Some (dotted a b c, r)"
proof -
  have 1: "digits1 (a @ (''.'' @ b @ ''.'' @ c @ r)) = Some (a, ''.'' @ b @ ''.'' @ c @ r)"
    using assms(1) by (intro digits1_run) (simp_all add: not_digit_dot)
  have 2: "digits1 (b @ (''.'' @ c @ r)) = Some (b, ''.'' @ c @ r)"
    using assms(2) by (intro digits1_run) (simp_all add: not_digit_dot)
  have 3: "digits1 (c @ r) = Some (c, r)"
    using assms(3,4) by (intro digits1_run)
  show ?thesis
    using 1 2 3 by (simp add: triple_def dotted_def)
qed

lemma triple_Some:
  assumes "triple s = Some (t, r)"
  shows "\<exists>a b c. number a \<and> number b \<and> number c \<and> t = dotted a b c \<and> s = t @ r \<and>
           (r = [] \<or> \<not> is_digit (hd r))"
proof -
  from assms obtain a r1 r2 b r3 r4 c where
    d1: "digits1 s = Some (a, r1)" and l1: "lit ''.'' r1 = Some r2" and
    d2: "digits1 r2 = Some (b, r3)" and l2: "lit ''.'' r3 = Some r4" and
    d3: "digits1 r4 = Some (c, r)" and t: "t = a @ ''.'' @ b @ ''.'' @ c"
    by (auto simp: triple_def bind_eq_Some_conv)
  from digits1_Some [OF d1] digits1_Some [OF d2] digits1_Some [OF d3]
    lit_Some [OF l1] lit_Some [OF l2] t
  show ?thesis
    by (intro exI [of _ a] exI [of _ b] exI [of _ c]) (simp add: dotted_def)
qed

lemma not_space_eq: "\<not> is_space CHR ''=''"
  by (simp add: is_space_def)

lemma assign_prefix_run:
  assumes "blank ws1" "blank ws2" "r = [] \<or> \<not> is_space (hd r)"
  shows "assign_prefix (assignment ws1 ws2 @ r) = Some (assignment ws1 ws2, r)"
proof -
  have 1: "lit ''version'' (''version'' @ (ws1 @ ''='' @ ws2 @ r)) = Some (ws1 @ ''='' @ ws2 @ r)"
    by (rule lit_append)
  have 2: "takeWhile is_space (ws1 @ (''='' @ ws2 @ r)) = ws1"
    "dropWhile is_space (ws1 @ (''='' @ ws2 @ r)) = ''='' @ ws2 @ r"
    using assms(1) by (simp_all add: run_takeWhile blank_def not_space_eq)
  have 3: "takeWhile is_space (ws2 @ r) = ws2" "dropWhile is_space (ws2 @ r) = r"
    using assms(2,3) by (simp_all add: run_takeWhile blank_def)
  show ?thesis
    using 1 2 3 by (simp add: assign_prefix_def assignment_def)
qed

lemma assign_prefix_Some:
  assumes "assign_prefix s = Some (g, r)"
  shows "\<exists>ws1 ws2. blank ws1 \<and> blank ws2 \<and> g = assignment ws1 ws2 \<and> s = g @ r \<and>
           (r = [] \<or> \<not> is_space (hd r))"
proof -
  from assms obtain r1 r2 where
    l1: "lit ''version'' s = Some r1" and l2: "lit ''='' (dropWhile is_space r1) = Some r2" and
    g: "g = ''version'' @ takeWhile is_space r1 @ ''='' @ takeWhile is_space r2" and
    r: "r = dropWhile is_space r2"
    by (auto simp: assign_prefix_def bind_eq_Some_conv)
  have b: "blank (takeWhile is_space r1)" "blank (takeWhile is_space r2)"
    unfolding blank_def list_all_iff by (auto dest: set_takeWhileD)
  have s: "s = ''version'' @ takeWhile is_space r1 @ ''='' @ takeWhile is_space r2 @ r"
    using lit_Some [OF l1] lit_Some [OF l2] r
    by (metis append_assoc takeWhile_dropWhile_id)
  have "r = [] \<or> \<not> is_space (hd r)"
    unfolding r using hd_dropWhile [of is_space r2] by blast
  with b g s show ?thesis
    by (intro exI [of _ "takeWhile is_space r1"] exI [of _ "takeWhile is_space r2"])
       (simp add: assignment_def)
qed

definition occurrence :: "string \<Rightarrow> string \<Rightarrow> string \<Rightarrow> string \<Rightarrow> string \<Rightarrow> string" where
  "occurrence ws1 ws2 a b c = assignment ws1 ws2 @ [dquote] @ dotted a b c @ [dquote]"

lemma not_space_dquote: "\<not> is_space dquote"
  by (simp add: is_space_def dquote_def)

lemma not_digit_dquote: "\<not> is_digit dquote"
  by (simp add: is_digit_def dquote_def)

lemma version_at_run:
  assumes "blank ws1" "blank ws2" "number a" "number b" "number c"
  shows "version_at (occurrence ws1 ws2 a b c @ r) = Some (assignment ws1 ws2, dotted a b c, r)"
proof -
  have 1: "assign_prefix (assignment ws1 ws2 @ (dquote # dotted a b c @ dquote # r))
             = Some (assignment ws1 ws2, dquote # dotted a b c @ dquote # r)"
    using assms(1,2) by (intro assign_prefix_run) (simp_all add: not_space_dquote)
  have 2: "triple (dotted a b c @ (dquote # r)) = Some (dotted a b c, dquote # r)"
    using assms(3,4,5) by (intro triple_run) (simp_all add: not_digit_dquote)
  show ?thesis
    using 1 2 by (simp add: version_at_def occurrence_def)
qed

lemma version_at_Some:
  assumes "version_at s = Some (g, t, r)"
  shows "\<exists>ws1 ws2 a b c. blank ws1 \<and> blank ws2 \<and> number a \<and> number b \<and> number c \<and>
           g = assignment ws1 ws2 \<and> t = dotted a b c \<and> s = occurrence ws1 ws2 a b c @ r"
proof -
  from assms obtain r1 r2 r3 where
    p: "assign_prefix s = Some (g, r1)" and l1: "lit [dquote] r1 = Some r2" and
    t: "triple r2 = Some (t, r3)" and l2: "lit [dquote] r3 = Some r"
    by (auto simp: version_at_def bind_eq_Some_conv)
  from assign_prefix_Some [OF p] obtain ws1 ws2 where
    ws: "blank ws1" "blank ws2" "g = assignment ws1 ws2" "s = g @ r1"
    by blast
  from triple_Some [OF t] obtain a b c where
    abc: "number a" "number b" "number c" "t = dotted a b c" "r2 = t @ r3"
    by blast
  have "s = occurrence ws1 ws2 a b c @ r"
    using ws(3,4) abc(4,5) lit_Some [OF l1] lit_Some [OF l2]
    by (simp add: occurrence_def)
  with ws abc show ?thesis
    by blast
qed

lemma version_at_shorter:
  assumes "version_at s = Some (g, t, r)"
  shows "length r < length s"
proof -
  from version_at_Some [OF assms] obtain ws1 ws2 a b c where
    "s = occurrence ws1 ws2 a b c @ r" by blast
  then show ?thesis
    by (simp add: occurrence_def)
qed

subsection \<open>The three uses of the patterns\<close>

text \<open>\<^verbatim>\<open>re.search(r'version\s*=\s*"(\d+\.\d+\.\d+)"', content)\<close> and
  \<^verbatim>\<open>match.group(1)\<close>: the start positions are tried from left to right.\<close>

fun re_search :: "string \<Rightarrow> string option" where
  "re_search [] = None"
| "re_search (c # cs) =
     (case version_at (c # cs) of
        Some (g, t, r) \<Rightarrow> Some t
      | None \<Rightarrow> re_search cs)"

text \<open>\<^verbatim>\<open>is_valid_version\<close>: \<^verbatim>\<open>re.match(r"^\d+\.\d+\.\d+$", version) is not None\<close>.
  Without \<^verbatim>\<open>re.MULTILINE\<close>, \<^verbatim>\<open>$\<close> matches at the end of the string and also
  just before a newline that is the last character of the string.\<close>

definition is_valid_version :: "string \<Rightarrow> bool" where
  "is_valid_version version =
     (case triple version of
        None \<Rightarrow> False
      | Some (t, r) \<Rightarrow> r = [] \<or> r = [newline])"

text \<open>
  The substitution of \<^verbatim>\<open>update_version\<close>:
  \<^verbatim>\<open>re.sub(r'^(version\s*=\s*)"(\d+\.\d+\.\d+)"', f'\\1"{new_version}"', content, flags=re.MULTILINE)\<close>.
  The scan goes from left to right. With \<^verbatim>\<open>re.MULTILINE\<close>, \<^verbatim>\<open>^\<close> matches at the start of
  the text and after every newline: \<open>bol\<close> says whether the scan is at such a place. A
  match is replaced by group 1, a quote, the new version and a quote, and the scan goes on
  after the match; elsewhere one character is copied. The replacement template is
  \<^verbatim>\<open>\1"\<close>, the new version and \<^verbatim>\<open>"\<close>; it expands as said for a new version without a
  backslash, which is every one that \<^verbatim>\<open>main\<close> lets through. A backslash in the new version
  would be read as an escape of the template: the model does not cover that.
\<close>

function re_sub :: "string \<Rightarrow> bool \<Rightarrow> string \<Rightarrow> string" where
  "re_sub new_version bol s =
     (case (if bol then version_at s else None) of
        Some (g, t, r) \<Rightarrow> g @ [dquote] @ new_version @ [dquote] @ re_sub new_version False r
      | None \<Rightarrow>
          (case s of
             [] \<Rightarrow> []
           | c # cs \<Rightarrow> c # re_sub new_version (c = newline) cs))"
  by pat_completeness auto
termination
  by (relation "measure (\<lambda>(v, bol, s). length s)")
     (auto split: if_splits dest: version_at_shorter)

declare re_sub.simps [simp del]

text \<open>A text starts with a match of the pattern whose captured triple is \<open>t\<close>.\<close>

definition matches :: "string \<Rightarrow> string \<Rightarrow> bool" where
  "matches s t \<longleftrightarrow>
     (\<exists>ws1 ws2 a b c post.
        s = occurrence ws1 ws2 a b c @ post \<and> blank ws1 \<and> blank ws2 \<and>
        number a \<and> number b \<and> number c \<and> t = dotted a b c)"

text \<open>A manifest in which another key that ends in \<^verbatim>\<open>version\<close> stands before the version
  of the package.\<close>

definition rust_version_manifest :: string where
  \<open>rust_version_manifest = ''rust-version = "1.70.0"\<newline>version = "1.2.3"\<newline>''\<close>

subsection \<open>Strings of the standard library\<close>

text \<open>\<^verbatim>\<open>str.strip()\<close>: the whitespace at both ends is removed.\<close>

definition strip :: "string \<Rightarrow> string" where
  "strip s = rev (dropWhile is_space (rev (dropWhile is_space s)))"

text \<open>\<^verbatim>\<open>str.lower()\<close> on the code points below 256: the letters A to Z and the
  capital letters 0xC0 to 0xDE but the multiplication sign 0xD7 move up by 32.\<close>

definition lower_char :: "char \<Rightarrow> char" where
  "lower_char c =
     (if (CHR ''A'' \<le> c \<and> c \<le> CHR ''Z'') \<or> (CHR 0xC0 \<le> c \<and> c \<le> CHR 0xDE \<and> c \<noteq> CHR 0xD7)
      then char_of (of_char c + (32 :: nat)) else c)"

definition lower :: "string \<Rightarrow> string" where
  "lower s = map lower_char s"

subsection \<open>The outside world\<close>

text \<open>
  What the script does to the outside is a sequence of events: a lookup of a tool on the
  path, an external command, a read or a write of \<^verbatim>\<open>Cargo.toml\<close>, a prompt on standard
  input. What it prints to standard output is not modelled, but for the text of the two
  prompts. What the outside answers is fixed by an environment: which tools
  \<^verbatim>\<open>shutil.which\<close> finds, the return code and the output of every command line, and
  the line separator of the platform, \<^verbatim>\<open>os.linesep\<close>.
  External commands are taken not to change \<^verbatim>\<open>Cargo.toml\<close>.
\<close>

datatype event =
    Which string
  | Run "string list"
  | Read_manifest
  | Write_manifest string
  | Input string

record env =
  which :: "string \<Rightarrow> bool"
  command :: "string list \<Rightarrow> int \<times> string"
  linesep :: string

text \<open>The state: the content of \<^verbatim>\<open>Cargo.toml\<close> (\<open>None\<close>: there is no such file), the
  lines still to be read from standard input, and the events so far.\<close>

record world =
  manifest :: "string option"
  stdin :: "string list"
  trace :: "event list"

text \<open>The exceptions that can leave a function of the script.\<close>

datatype exn =
    SystemExit int
  | CalledProcessError
  | FileNotFoundError
  | EOFError
  | ZeroDivisionError

type_synonym 'a io = "world \<Rightarrow> (exn + 'a) \<times> world"

definition return :: "'a \<Rightarrow> 'a io" where
  "return x w = (Inr x, w)"

definition raise :: "exn \<Rightarrow> 'a io" where
  "raise e w = (Inl e, w)"

text \<open>One statement after another: an exception ends the sequence.\<close>

definition seq :: "'a io \<Rightarrow> ('a \<Rightarrow> 'b io) \<Rightarrow> 'b io" where
  "seq m f w = (case m w of (Inl e, w') \<Rightarrow> (Inl e, w') | (Inr x, w') \<Rightarrow> f x w')"

definition log :: "event \<Rightarrow> unit io" where
  "log ev w = (Inr (), w\<lparr>trace := trace w @ [ev]\<rparr>)"

text \<open>\<^verbatim>\<open>for x in xs: body(x)\<close>.\<close>

fun for_each :: "'a list \<Rightarrow> ('a \<Rightarrow> unit io) \<Rightarrow> unit io" where
  "for_each [] body = return ()"
| "for_each (x # xs) body = seq (body x) (\<lambda>_. for_each xs body)"

text \<open>\<^verbatim>\<open>shutil.which(tool_name) is not None\<close>.\<close>

definition shutil_which :: "env \<Rightarrow> string \<Rightarrow> bool io" where
  "shutil_which e tool_name = seq (log (Which tool_name)) (\<lambda>_. return (which e tool_name))"

text \<open>\<^verbatim>\<open>subprocess.run(argv, check=check).returncode\<close>: with \<^verbatim>\<open>check=True\<close> a return
  code other than 0 raises \<^verbatim>\<open>CalledProcessError\<close>.\<close>

definition subprocess_run :: "env \<Rightarrow> string list \<Rightarrow> bool \<Rightarrow> int io" where
  "subprocess_run e argv check =
     seq (log (Run argv)) (\<lambda>_.
       if check \<and> fst (command e argv) \<noteq> 0 then raise CalledProcessError
       else return (fst (command e argv)))"

text \<open>\<^verbatim>\<open>subprocess.check_output(argv).decode()\<close>.\<close>

definition check_output :: "env \<Rightarrow> string list \<Rightarrow> string io" where
  "check_output e argv =
     seq (log (Run argv)) (\<lambda>_.
       if fst (command e argv) \<noteq> 0 then raise CalledProcessError
       else return (snd (command e argv)))"

text \<open>A file opened in text mode with \<^verbatim>\<open>newline=None\<close>, the default, is read with
  universal newlines: \<^verbatim>\<open>\r\n\<close> and a \<^verbatim>\<open>\r\<close> alone come back as \<^verbatim>\<open>\n\<close>.\<close>

fun universal_newlines :: "string \<Rightarrow> string" where
  "universal_newlines [] = []"
| "universal_newlines [c] = (if c = CR then [newline] else [c])"
| "universal_newlines (c # d # cs) =
     (if c = CR \<and> d = newline then newline # universal_newlines cs
      else if c = CR then newline # universal_newlines (d # cs)
      else c # universal_newlines (d # cs))"

text \<open>On writing, every \<^verbatim>\<open>\n\<close> becomes the line separator of the platform.\<close>

definition write_newlines :: "string \<Rightarrow> string \<Rightarrow> string" where
  "write_newlines sep s = concat (map (\<lambda>c. if c = newline then sep else [c]) s)"

text \<open>\<^verbatim>\<open>with open("Cargo.toml", "r") as f: content = f.read()\<close>.\<close>

definition read_manifest :: "string io" where
  "read_manifest =
     seq (log Read_manifest) (\<lambda>_ w.
       case manifest w of
         None \<Rightarrow> raise FileNotFoundError w
       | Some content \<Rightarrow> return (universal_newlines content) w)"

text \<open>\<^verbatim>\<open>with open("Cargo.toml", "w") as f: f.write(updated_content)\<close>. The file is taken
  to be writable. The event records the string given to \<^verbatim>\<open>f.write\<close>, the state the text
  the file has afterwards.\<close>

definition write_manifest :: "env \<Rightarrow> string \<Rightarrow> unit io" where
  "write_manifest e updated_content =
     seq (log (Write_manifest updated_content)) (\<lambda>_ w.
       (Inr (), w\<lparr>manifest := Some (write_newlines (linesep e) updated_content)\<rparr>))"

text \<open>\<^verbatim>\<open>input(prompt)\<close>: the next line of standard input without its newline;
  \<^verbatim>\<open>EOFError\<close> when there is none.\<close>

definition input_line :: "string \<Rightarrow> string io" where
  "input_line prompt =
     seq (log (Input prompt)) (\<lambda>_ w.
       case stdin w of
         [] \<Rightarrow> raise EOFError w
       | line # rest \<Rightarrow> (Inr line, w\<lparr>stdin := rest\<rparr>))"

text \<open>\<^verbatim>\<open>try: body  except subprocess.CalledProcessError as e: handler\<close>.\<close>

definition except_CalledProcessError :: "'a io \<Rightarrow> 'a io \<Rightarrow> 'a io" where
  "except_CalledProcessError body handler w =
     (case body w of
        (Inl CalledProcessError, w') \<Rightarrow> handler w'
      | r \<Rightarrow> r)"

subsection \<open>The functions of the script\<close>

definition COLOR_RESET :: string where
  "COLOR_RESET = ESC # ''[0m''"

definition COLOR_VERSION_PROMPT :: string where
  "COLOR_VERSION_PROMPT = ESC # ''[38;2;255;105;180m''"

definition check_tool_installed :: "env \<Rightarrow> string \<Rightarrow> unit io" where
  "check_tool_installed e tool_name =
     seq (shutil_which e tool_name) (\<lambda>found.
       if \<not> found then raise (SystemExit 1) else return ())"

definition check_branch :: "env \<Rightarrow> unit io" where
  "check_branch e =
     seq (check_output e [''git'', ''rev-parse'', ''--abbrev-ref'', ''HEAD'']) (\<lambda>out.
       if strip out \<noteq> ''main'' then raise (SystemExit 1) else return ())"

definition check_uncommitted_changes :: "env \<Rightarrow> unit io" where
  "check_uncommitted_changes e =
     seq (subprocess_run e [''git'', ''diff-index'', ''--quiet'', ''HEAD'', ''--''] False) (\<lambda>returncode.
       if returncode \<noteq> 0 then raise (SystemExit 1) else return ())"

definition get_current_version :: "string io" where
  "get_current_version =
     seq read_manifest (\<lambda>content.
       case re_search content of
         Some group1 \<Rightarrow> return group1
       | None \<Rightarrow> raise (SystemExit 1))"

definition update_version :: "env \<Rightarrow> string \<Rightarrow> unit io" where
  "update_version e new_version =
     seq read_manifest (\<lambda>content.
       write_manifest e (re_sub new_version True content))"

definition run_checks :: "env \<Rightarrow> unit io" where
  "run_checks e =
     seq (subprocess_run e [''cargo'', ''check''] True) (\<lambda>_.
     seq (subprocess_run e [''cargo'', ''test''] True) (\<lambda>_.
       return ()))"

text \<open>The prompt of \<^verbatim>\<open>show_changes\<close>.\<close>

definition confirm_prompt :: string where
  "confirm_prompt =
     COLOR_VERSION_PROMPT @ ''Do you want to proceed with these changes? (y/N): '' @ COLOR_RESET"

definition show_changes :: "env \<Rightarrow> bool io" where
  "show_changes e =
     seq (subprocess_run e [''git'', ''status'', ''--porcelain''] False) (\<lambda>_.
     seq (input_line confirm_prompt) (\<lambda>confirmation.
       return (lower confirmation = ''y'')))"

definition commit_and_push :: "env \<Rightarrow> string \<Rightarrow> unit io" where
  "commit_and_push e version =
     except_CalledProcessError
       (seq (subprocess_run e [''git'', ''add'', ''Cargo.*''] True) (\<lambda>_.
        seq (subprocess_run e [''git'', ''commit'', ''-m'', '':rocket: Release version '' @ version] True) (\<lambda>_.
        seq (subprocess_run e [''git'', ''push''] True) (\<lambda>_.
        seq (subprocess_run e [''git'', ''tag'', ''v'' @ version] True) (\<lambda>_.
        seq (subprocess_run e [''git'', ''push'', ''--tags''] True) (\<lambda>_.
          return ()))))))
       (raise (SystemExit 1))"

text \<open>The prompt of \<^verbatim>\<open>main\<close> for the new version.\<close>

definition version_prompt :: "string \<Rightarrow> string" where
  "version_prompt current_version =
     COLOR_VERSION_PROMPT @ ''Current version is '' @ current_version
       @ ''. What should the new version be? '' @ COLOR_RESET"

definition main :: "env \<Rightarrow> unit io" where
  "main e =
     seq (for_each [''git'', ''cargo''] (check_tool_installed e)) (\<lambda>_.
     seq (check_branch e) (\<lambda>_.
     seq (check_uncommitted_changes e) (\<lambda>_.
     seq get_current_version (\<lambda>current_version.
     seq (input_line (version_prompt current_version)) (\<lambda>new_version.
     if \<not> is_valid_version new_version then raise (SystemExit 1)
     else
       seq (update_version e new_version) (\<lambda>_.
       seq (run_checks e) (\<lambda>_.
       seq (show_changes e) (\<lambda>proceed.
       if \<not> proceed then raise (SystemExit 1)
       else commit_and_push e new_version))))))))"

text \<open>The exit status of the process: that of \<^verbatim>\<open>sys.exit\<close>, 1 after an exception that
  nothing caught, 0 when \<^verbatim>\<open>main\<close> returns.\<close>

definition exit_code :: "exn + unit \<Rightarrow> int" where
  "exit_code r = (case r of Inr _ \<Rightarrow> 0 | Inl (SystemExit n) \<Rightarrow> n | Inl _ \<Rightarrow> 1)"

subsection \<open>The steps of a run\<close>

definition tools_installed :: "env \<Rightarrow> bool" where
  "tools_installed e \<longleftrightarrow> which e ''git'' \<and> which e ''cargo''"

definition on_main_branch :: "env \<Rightarrow> bool" where
  "on_main_branch e \<longleftrightarrow>
     fst (command e [''git'', ''rev-parse'', ''--abbrev-ref'', ''HEAD'']) = 0 \<and>
     strip (snd (command e [''git'', ''rev-parse'', ''--abbrev-ref'', ''HEAD''])) = ''main''"

definition tree_clean :: "env \<Rightarrow> bool" where
  "tree_clean e \<longleftrightarrow> fst (command e [''git'', ''diff-index'', ''--quiet'', ''HEAD'', ''--'']) = 0"

definition manifest_has_version :: "world \<Rightarrow> bool" where
  "manifest_has_version w \<longleftrightarrow>
     (case manifest w of
        None \<Rightarrow> False
      | Some content \<Rightarrow> re_search (universal_newlines content) \<noteq> None)"

definition checks_pass :: "env \<Rightarrow> bool" where
  "checks_pass e \<longleftrightarrow>
     fst (command e [''cargo'', ''check'']) = 0 \<and> fst (command e [''cargo'', ''test'']) = 0"

definition publish_succeeds :: "env \<Rightarrow> string \<Rightarrow> bool" where
  "publish_succeeds e version \<longleftrightarrow>
     fst (command e [''git'', ''add'', ''Cargo.*'']) = 0 \<and>
     fst (command e [''git'', ''commit'', ''-m'', '':rocket: Release version '' @ version]) = 0 \<and>
     fst (command e [''git'', ''push'']) = 0 \<and>
     fst (command e [''git'', ''tag'', ''v'' @ version]) = 0 \<and>
     fst (command e [''git'', ''push'', ''--tags'']) = 0"

definition all_steps_succeed :: "env \<Rightarrow> world \<Rightarrow> bool" where
  "all_steps_succeed e w \<longleftrightarrow>
     tools_installed e \<and> on_main_branch e \<and> tree_clean e \<and> manifest_has_version w \<and>
     (case stdin w of
        new_version # answer # _ \<Rightarrow>
          is_valid_version new_version \<and> checks_pass e \<and> lower answer = ''y'' \<and>
          publish_succeeds e new_version
      | _ \<Rightarrow> False)"

text \<open>Kinds of events.\<close>

fun writes :: "event \<Rightarrow> bool" where
  "writes (Write_manifest _) = True"
| "writes _ = False"

fun reads :: "event \<Rightarrow> bool" where
  "reads Read_manifest = True"
| "reads _ = False"

fun prompts :: "event \<Rightarrow> bool" where
  "prompts (Input _) = True"
| "prompts _ = False"

text \<open>A commit, a push or a tag.\<close>

fun publishes :: "event \<Rightarrow> bool" where
  "publishes (Run (tool # verb # _)) =
     (tool = ''git'' \<and> (verb = ''commit'' \<or> verb = ''push'' \<or> verb = ''tag''))"
| "publishes _ = False"

fun tags :: "event \<Rightarrow> bool" where
  "tags (Run (tool # verb # _)) = (tool = ''git'' \<and> verb = ''tag'')"
| "tags _ = False"

text \<open>The events of a run up to the write of the manifest when every step up to there
  succeeds, and the events that follow the write when every later step succeeds.\<close>

definition events_to_write :: "string \<Rightarrow> string \<Rightarrow> event list" where
  "events_to_write current_version updated_content =
     [Which ''git'', Which ''cargo'',
      Run [''git'', ''rev-parse'', ''--abbrev-ref'', ''HEAD''],
      Run [''git'', ''diff-index'', ''--quiet'', ''HEAD'', ''--''],
      Read_manifest, Input (version_prompt current_version),
      Read_manifest, Write_manifest updated_content]"

definition events_after_write :: "string \<Rightarrow> event list" where
  "events_after_write version =
     [Run [''cargo'', ''check''], Run [''cargo'', ''test''],
      Run [''git'', ''status'', ''--porcelain''], Input confirm_prompt,
      Run [''git'', ''add'', ''Cargo.*''],
      Run [''git'', ''commit'', ''-m'', '':rocket: Release version '' @ version],
      Run [''git'', ''push''], Run [''git'', ''tag'', ''v'' @ version],
      Run [''git'', ''push'', ''--tags'']]"

text \<open>The line \<^verbatim>\<open>version = "1.2.3"\<close>, and the line it becomes.\<close>

definition version_line :: "string \<Rightarrow> string" where
  "version_line t = ''version = '' @ [dquote] @ t @ [dquote]"

subsection \<open>Concrete runs\<close>

text \<open>An environment in which both tools are installed, the branch is \<^verbatim>\<open>main\<close>, every
  command returns 0 and the line separator is \<^verbatim>\<open>\n\<close>; one in which \<^verbatim>\<open>git diff-index\<close> returns 1; one in which
  \<^verbatim>\<open>cargo test\<close> returns 101; one in which \<^verbatim>\<open>git push\<close> returns 128; one in which the
  line separator is \<^verbatim>\<open>\r\n\<close>.\<close>

definition env_ok :: env where
  "env_ok =
     \<lparr>which = (\<lambda>_. True),
      command = (\<lambda>argv.
        if argv = [''git'', ''rev-parse'', ''--abbrev-ref'', ''HEAD''] then (0, ''main'' @ [newline])
        else (0, [])),
      linesep = [newline]\<rparr>"

definition env_dirty :: env where
  "env_dirty =
     env_ok\<lparr>command := (\<lambda>argv.
        if argv = [''git'', ''diff-index'', ''--quiet'', ''HEAD'', ''--''] then (1, [])
        else command env_ok argv)\<rparr>"

definition env_tests_fail :: env where
  "env_tests_fail =
     env_ok\<lparr>command := (\<lambda>argv.
        if argv = [''cargo'', ''test''] then (101, []) else command env_ok argv)\<rparr>"

definition env_push_fails :: env where
  "env_push_fails =
     env_ok\<lparr>command := (\<lambda>argv.
        if argv = [''git'', ''push''] then (128, []) else command env_ok argv)\<rparr>"

definition env_crlf :: env where
  "env_crlf = env_ok\<lparr>linesep := [CR, newline]\<rparr>"

text \<open>A manifest, and the world at the start of a run.\<close>

definition manifest_123 :: string where
  \<open>manifest_123 = ''[package]\<newline>name = "git-iris"\<newline>version = "1.2.3"\<newline>''\<close>

definition manifest_130 :: string where
  \<open>manifest_130 = ''[package]\<newline>name = "git-iris"\<newline>version = "1.3.0"\<newline>''\<close>

definition fresh :: "string \<Rightarrow> string list \<Rightarrow> world" where
  "fresh content lines = \<lparr>manifest = Some content, stdin = lines, trace = []\<rparr>"

text \<open>A manifest with the version of the package and, further down, the version of a
  dependency.\<close>

definition dependency_manifest :: string where
  \<open>dependency_manifest =
     ''[package]\<newline>version = "1.2.3"\<newline>[dependencies.serde]\<newline>'' @ version_line ''1.0.200'' @ [newline]\<close>

subsection \<open>The banner: centring\<close>

text \<open>The texts of the banner have characters beyond the code point 255 (box drawing,
  stars, emoji), and what the library \<^verbatim>\<open>wcwidth\<close> measures depends on such characters. So
  here a Python string is the list of its code points.\<close>

type_synonym str = "nat list"

definition codes :: "string \<Rightarrow> str" where
  "codes s = map of_char s"

definition ESCAPE :: nat where
  "ESCAPE = 0x1B"

definition SPACE :: nat where
  "SPACE = 0x20"

text \<open>The zero width joiner, U+200D, and the bell, a control character.\<close>

definition ZWJ :: nat where
  "ZWJ = 0x200D"

definition BEL :: nat where
  "BEL = 0x07"

text \<open>The classes of the pattern of \<^verbatim>\<open>strip_ansi\<close>,
  \<^verbatim>\<open>\x1B[@-_][0-?]*[ -/]*[@-~]\<close>: \<^verbatim>\<open>@\<close> is 0x40, \<^verbatim>\<open>_\<close> 0x5F, \<^verbatim>\<open>0\<close> 0x30, \<^verbatim>\<open>?\<close> 0x3F,
  the space 0x20, \<^verbatim>\<open>/\<close> 0x2F and \<^verbatim>\<open>~\<close> 0x7E.\<close>

definition csi_intro :: "nat \<Rightarrow> bool" where
  "csi_intro c \<longleftrightarrow> 0x40 \<le> c \<and> c \<le> 0x5F"

definition csi_param :: "nat \<Rightarrow> bool" where
  "csi_param c \<longleftrightarrow> 0x30 \<le> c \<and> c \<le> 0x3F"

definition csi_inter :: "nat \<Rightarrow> bool" where
  "csi_inter c \<longleftrightarrow> 0x20 \<le> c \<and> c \<le> 0x2F"

definition csi_final :: "nat \<Rightarrow> bool" where
  "csi_final c \<longleftrightarrow> 0x40 \<le> c \<and> c \<le> 0x7E"

text \<open>\<^verbatim>\<open>[0-?]*[ -/]*[@-~]\<close> at the start of the text: the text after the match. The
  three classes are disjoint, so here too the longest runs give the only match.\<close>

definition ansi_rest :: "str \<Rightarrow> str option" where
  "ansi_rest r =
     (case dropWhile csi_inter (dropWhile csi_param r) of
        [] \<Rightarrow> None
      | f # r' \<Rightarrow> if csi_final f then Some r' else None)"

text \<open>The whole pattern at the start of the text.\<close>

definition ansi_at :: "str \<Rightarrow> str option" where
  "ansi_at s =
     (case s of
        e # c # r \<Rightarrow> if e = ESCAPE \<and> csi_intro c then ansi_rest r else None
      | _ \<Rightarrow> None)"

lemma ansi_rest_shorter: "ansi_rest s = Some r \<Longrightarrow> length r < length s"
proof -
  assume "ansi_rest s = Some r"
  then obtain f where "dropWhile csi_inter (dropWhile csi_param s) = f # r"
    by (auto simp: ansi_rest_def split: list.splits if_splits)
  moreover have "length (dropWhile csi_inter (dropWhile csi_param s)) \<le> length s"
    by (meson length_dropWhile_le order_trans)
  ultimately show ?thesis by simp
qed

lemma ansi_at_shorter: "ansi_at s = Some r \<Longrightarrow> length r < length s"
  by (auto simp: ansi_at_def split: list.splits if_splits dest: ansi_rest_shorter)

text \<open>\<^verbatim>\<open>ansi_escape.sub("", text)\<close>: every match is dropped, every other character kept.\<close>

function strip_ansi :: "str \<Rightarrow> str" where
  "strip_ansi s =
     (case ansi_at s of
        Some r \<Rightarrow> strip_ansi r
      | None \<Rightarrow> (case s of [] \<Rightarrow> [] | c # cs \<Rightarrow> c # strip_ansi cs))"
  by pat_completeness auto
termination
  by (relation "measure length") (auto dest: ansi_at_shorter)

declare strip_ansi.simps [simp del]

text \<open>\<^verbatim>\<open>' ' * n\<close>: the empty string when \<open>n\<close> is not positive.\<close>

definition spaces :: "int \<Rightarrow> str" where
  "spaces n = replicate (nat n) SPACE"

text \<open>
  \<^verbatim>\<open>wcswidth\<close> is a function of the library \<^verbatim>\<open>wcwidth\<close>, which is not part of the script:
  it is a parameter of \<^verbatim>\<open>center_text\<close> here, and what is proved of \<^verbatim>\<open>center_text\<close> holds
  for every function in its place.
\<close>

definition center_text :: "(str \<Rightarrow> int) \<Rightarrow> str \<Rightarrow> int \<Rightarrow> str" where
  "center_text wcswidth text width =
     (let visible_length = wcswidth (strip_ansi text);
          padding = (width - visible_length) div 2
      in spaces padding @ text @ spaces (width - padding - visible_length))"

text \<open>
  The measure of the library, for the examples and for the texts on which the measures of
  the parts add up. The library goes through the text from left to right: a zero width
  joiner and the character after it are not measured; a character to which the table
  \<^verbatim>\<open>wcwidth\<close> gives a negative width (a control character) makes the result -1; the
  widths of the other characters are added. The table is a parameter. What the library
  does besides, at a variation selector, a regional indicator, a skin tone modifier, a
  virama and a spacing mark, is left out: all of these are beyond the code point 255, and
  the measure below is the library's on texts without them.
\<close>

fun wcswidth_from :: "(nat \<Rightarrow> int) \<Rightarrow> int \<Rightarrow> str \<Rightarrow> int" where
  "wcswidth_from wcwidth width [] = width"
| "wcswidth_from wcwidth width [c] =
     (if c = ZWJ then width
      else if wcwidth c < 0 then - 1
      else width + wcwidth c)"
| "wcswidth_from wcwidth width (c # d # cs) =
     (if c = ZWJ then wcswidth_from wcwidth width cs
      else if wcwidth c < 0 then - 1
      else wcswidth_from wcwidth (width + wcwidth c) (d # cs))"

definition wcswidth_of :: "(nat \<Rightarrow> int) \<Rightarrow> str \<Rightarrow> int" where
  "wcswidth_of wcwidth pwcs = wcswidth_from wcwidth 0 pwcs"

text \<open>The widths the table of the library gives below 256: 0 for NUL, -1 for the other
  control characters (below 0x20, and 0x7F to 0x9F), 1 for the rest. Beyond 255 the table
  of the library is not modelled; the measure never looks up the joiner, and nothing below
  uses the table at another code point beyond 255.\<close>

definition wcwidth_latin1 :: "nat \<Rightarrow> int" where
  "wcwidth_latin1 c =
     (if c = 0 then 0
      else if c < 0x20 \<or> (0x7F \<le> c \<and> c < 0xA0) then - 1
      else 1)"

subsection \<open>The banner: gradient\<close>

text \<open>\<^verbatim>\<open>str(n)\<close> for an integer.\<close>

fun str_nat :: "nat \<Rightarrow> string" where
  "str_nat n = (if n < 10 then [''0123456789'' ! n] else str_nat (n div 10) @ [''0123456789'' ! (n mod 10)])"

definition str_int :: "int \<Rightarrow> string" where
  "str_int i = (if i < 0 then ''-'' @ str_nat (nat (- i)) else str_nat (nat i))"

text \<open>\<^verbatim>\<open>int(x)\<close> for a number that is not an integer: the fraction is cut off.\<close>

definition int_of :: "real \<Rightarrow> int" where
  "int_of x = (if x < 0 then \<lceil>x\<rceil> else \<lfloor>x\<rfloor>)"

text \<open>\<^verbatim>\<open>int(start * (1 - t) + end * t)\<close>. Python computes the sum in binary floating
  point; here it is computed exactly.\<close>

definition interpolate :: "int \<Rightarrow> int \<Rightarrow> real \<Rightarrow> int" where
  "interpolate start_c end_c t = int_of (of_int start_c * (1 - t) + of_int end_c * t)"

definition color_code :: "int \<times> int \<times> int \<Rightarrow> string" where
  "color_code c = (case c of (r, g, b) \<Rightarrow>
     ESC # ''[38;2;'' @ str_int r @ '';'' @ str_int g @ '';'' @ str_int b @ ''m'')"

text \<open>The values of \<^verbatim>\<open>t = j / steps_per_segment\<close> for \<^verbatim>\<open>j in range(steps_per_segment)\<close>.\<close>

definition segment_params :: "int \<Rightarrow> real list" where
  "segment_params steps_per_segment =
     map (\<lambda>j. of_nat j / of_int steps_per_segment) [0 ..< nat steps_per_segment]"

definition blend :: "int \<times> int \<times> int \<Rightarrow> int \<times> int \<times> int \<Rightarrow> real \<Rightarrow> int \<times> int \<times> int" where
  "blend start_color end_color t =
     (interpolate (fst start_color) (fst end_color) t,
      interpolate (fst (snd start_color)) (fst (snd end_color)) t,
      interpolate (snd (snd start_color)) (snd (snd end_color)) t)"

definition generate_gradient :: "(int \<times> int \<times> int) list \<Rightarrow> int \<Rightarrow> exn + string list" where
  "generate_gradient colors steps =
     (let segments = int (length colors) - 1 in
      if segments = 0 then Inl ZeroDivisionError
      else
        let steps_per_segment = max 1 (steps div segments) in
        Inr (concat (map (\<lambda>i.
               map (\<lambda>t. color_code (blend (colors ! i) (colors ! (i + 1)) t))
                   (segment_params steps_per_segment))
             [0 ..< nat segments])))"

definition GRADIENT_COLORS :: "(int \<times> int \<times> int) list" where
  "GRADIENT_COLORS =
     [(138, 43, 226), (75, 0, 130), (0, 191, 255), (30, 144, 255),
      (138, 43, 226), (75, 0, 130), (0, 191, 255)]"

text \<open>The codes of one segment, as the inner loop makes them.\<close>

definition segment_codes :: "(int \<times> int \<times> int) list \<Rightarrow> int \<Rightarrow> nat \<Rightarrow> string list" where
  "segment_codes colors k i =
     map (\<lambda>t. color_code (blend (colors ! i) (colors ! (i + 1)) t)) (segment_params k)"

section \<open>Properties of the substitution\<close>

text \<open>The letter v occurs in an occurrence at its first position only.\<close>

lemma v_notin_blank: "blank ws \<Longrightarrow> CHR ''v'' \<notin> set ws"
  by (auto simp: blank_def list_all_iff is_space_def)

lemma v_notin_number: "number a \<Longrightarrow> CHR ''v'' \<notin> set a"
  by (auto simp: number_def list_all_iff is_digit_def)

lemma occurrence_v:
  assumes "blank ws1" "blank ws2" "number a" "number b" "number c"
  shows "\<exists>m. occurrence ws1 ws2 a b c = CHR ''v'' # m \<and> CHR ''v'' \<notin> set m"
  using assms v_notin_blank v_notin_number
  by (auto simp: occurrence_def assignment_def dotted_def dquote_def)

lemma version_at_append:
  assumes "version_at p = Some (g, t, r)"
  shows "version_at (p @ s) = Some (g, t, r @ s)"
proof -
  from version_at_Some [OF assms] obtain ws1 ws2 a b c where
    *: "blank ws1" "blank ws2" "number a" "number b" "number c"
    "g = assignment ws1 ws2" "t = dotted a b c" "p = occurrence ws1 ws2 a b c @ r"
    by blast
  show ?thesis
    using version_at_run [OF *(1-5), of "r @ s"] *(6-8) by simp
qed

lemma version_at_append_None:
  assumes "version_at p = None" "p \<noteq> []" "s = [] \<or> hd s = CHR ''v''"
  shows "version_at (p @ s) = None"
proof (cases s)
  case Nil
  with assms(1) show ?thesis by simp
next
  case (Cons x s')
  with assms(3) have s: "s = CHR ''v'' # s'" by simp
  show ?thesis
  proof (rule ccontr)
    assume "version_at (p @ s) \<noteq> None"
    then obtain g t r where some: "version_at (p @ s) = Some (g, t, r)"
      by auto
    from version_at_Some [OF some] obtain ws1 ws2 a b c where
      *: "blank ws1" "blank ws2" "number a" "number b" "number c"
      "g = assignment ws1 ws2" "t = dotted a b c" "p @ s = occurrence ws1 ws2 a b c @ r"
      by blast
    from occurrence_v [OF *(1-5)] obtain m where
      m: "occurrence ws1 ws2 a b c = CHR ''v'' # m" "CHR ''v'' \<notin> set m"
      by blast
    from assms(2) obtain y p' where p: "p = y # p'"
      by (cases p) auto
    from *(8) m(1) p s have eq: "p' @ CHR ''v'' # s' = m @ r" and y: "y = CHR ''v''"
      by simp_all
    from eq obtain us where
      "(p' = m @ us \<and> us @ CHR ''v'' # s' = r) \<or> (p' @ us = m \<and> CHR ''v'' # s' = us @ r)"
      by (auto simp: append_eq_append_conv2)
    then have "\<exists>us. p' = m @ us"
    proof
      assume "p' = m @ us \<and> us @ CHR ''v'' # s' = r"
      then show ?thesis by blast
    next
      assume a: "p' @ us = m \<and> CHR ''v'' # s' = us @ r"
      show ?thesis
      proof (cases us)
        case Nil
        with a show ?thesis by auto
      next
        case (Cons u us')
        with a have "u = CHR ''v''" by simp
        with a Cons m(2) show ?thesis by auto
      qed
    qed
    then obtain us where "p' = m @ us" by blast
    with p y m(1) have "p = occurrence ws1 ws2 a b c @ us" by simp
    with version_at_run [OF *(1-5), of us] assms(1) show False by simp
  qed
qed

text \<open>Whether the scan is at the beginning of a line after it has read \<open>p\<close>.\<close>

definition bol_after :: "bool \<Rightarrow> string \<Rightarrow> bool" where
  "bol_after bol p = (if p = [] then bol else last p = newline)"

lemma last_occurrence: "last (occurrence ws1 ws2 a b c @ r) = (if r = [] then dquote else last r)"
  by (simp add: occurrence_def)

lemma version_at_Nil: "version_at [] = None"
  by (simp add: version_at_def assign_prefix_def)

lemma re_sub_Nil: "re_sub v bol [] = []"
  by (simp add: re_sub.simps [of v bol "[]"] version_at_Nil)

lemma re_sub_match:
  assumes "bol" "version_at s = Some (g, t, r)"
  shows "re_sub v bol s = g @ [dquote] @ v @ [dquote] @ re_sub v False r"
  by (subst re_sub.simps) (simp add: assms)

lemma re_sub_step:
  assumes "bol \<Longrightarrow> version_at (c # cs) = None"
  shows "re_sub v bol (c # cs) = c # re_sub v (c = newline) cs"
  by (subst re_sub.simps) (simp add: assms)

lemma re_sub_append:
  assumes "s = [] \<or> hd s = CHR ''v''"
  shows "re_sub v bol (p @ s) = re_sub v bol p @ re_sub v (bol_after bol p) s"
  using assms
proof (induction v bol p rule: re_sub.induct)
  case (1 v bol p)
  show ?case
  proof (cases p)
    case Nil
    then show ?thesis
      by (simp add: re_sub_Nil bol_after_def)
  next
    case (Cons c cs)
    show ?thesis
    proof (cases "if bol then version_at p else None")
      case None
      then have n: "version_at (c # (cs @ s)) = None" and n': "version_at (c # cs) = None" if bol
        using that version_at_append_None [of p s] Cons "1.prems" by (auto split: if_splits)
      have "re_sub v (c = newline) (cs @ s) =
              re_sub v (c = newline) cs @ re_sub v (bol_after (c = newline) cs) s"
        using "1.IH"(1) [OF None Cons] "1.prems" by simp
      moreover have "bol_after (c = newline) cs = bol_after bol p"
        using Cons by (simp add: bol_after_def)
      moreover have "re_sub v bol (c # (cs @ s)) = c # re_sub v (c = newline) (cs @ s)"
        by (rule re_sub_step [OF n])
      moreover have "re_sub v bol (c # cs) = c # re_sub v (c = newline) cs"
        by (rule re_sub_step [OF n'])
      ultimately show ?thesis
        using Cons by simp
    next
      case (Some gtr)
      obtain g t r where gtr: "gtr = (g, t, r)" by (cases gtr) auto
      from Some gtr have bol: bol and va: "version_at p = Some (g, t, r)"
        by (auto split: if_splits)
      from version_at_Some [OF va] obtain ws1 ws2 a b c where
        p: "p = occurrence ws1 ws2 a b c @ r" by blast
      have "bol_after False r = bol_after bol p"
        unfolding p bol_after_def using last_occurrence [of ws1 ws2 a b c r]
        by (auto simp: occurrence_def dquote_def newline_def)
      moreover have "re_sub v False (r @ s) = re_sub v False r @ re_sub v (bol_after False r) s"
        by (rule "1.IH"(2) [OF Some gtr [symmetric] refl "1.prems"])
      ultimately show ?thesis
        using re_sub_match [OF bol va, of v] re_sub_match [OF bol version_at_append [OF va, of s], of v]
        by simp
    qed
  qed
qed

lemma matches_iff: "matches s t \<longleftrightarrow> (\<exists>g r. version_at s = Some (g, t, r))"
proof
  assume "matches s t"
  then obtain ws1 ws2 a b c post where
    "s = occurrence ws1 ws2 a b c @ post" "blank ws1" "blank ws2"
    "number a" "number b" "number c" "t = dotted a b c"
    unfolding matches_def by blast
  then show "\<exists>g r. version_at s = Some (g, t, r)"
    using version_at_run [of ws1 ws2 a b c post] by simp
next
  assume "\<exists>g r. version_at s = Some (g, t, r)"
  then obtain g r where "version_at s = Some (g, t, r)" by blast
  from version_at_Some [OF this] show "matches s t"
    unfolding matches_def by blast
qed

lemma no_match_iff: "(\<forall>t. \<not> matches s t) \<longleftrightarrow> version_at s = None"
proof -
  have "version_at s = None \<longleftrightarrow> (\<forall>t g r. version_at s \<noteq> Some (g, t, r))"
    by (cases "version_at s") auto
  then show ?thesis
    by (simp add: matches_iff)
qed

lemma re_search_Some_iff:
  "re_search m = Some t \<longleftrightarrow>
     (\<exists>i\<le>length m. (\<exists>g r. version_at (drop i m) = Some (g, t, r)) \<and>
        (\<forall>j<i. version_at (drop j m) = None))"
proof (induction m)
  case Nil
  show ?case by (simp add: version_at_Nil)
next
  case (Cons c cs)
  show ?case
  proof (cases "version_at (c # cs)")
    case (Some gtr)
    obtain g t' r where gtr: "gtr = (g, t', r)" by (cases gtr) auto
    have "re_search (c # cs) = Some t \<longleftrightarrow> t' = t"
      using Some gtr by simp
    also have "t' = t \<longleftrightarrow>
      (\<exists>i\<le>length (c # cs). (\<exists>g r. version_at (drop i (c # cs)) = Some (g, t, r)) \<and>
        (\<forall>j<i. version_at (drop j (c # cs)) = None))" (is "_ \<longleftrightarrow> ?R")
    proof
      assume "t' = t"
      with Some gtr have "(\<exists>g r. version_at (drop 0 (c # cs)) = Some (g, t, r)) \<and>
        (\<forall>j<0. version_at (drop j (c # cs)) = None)" by simp
      then show ?R by blast
    next
      assume ?R
      then obtain i g' r' where i: "version_at (drop i (c # cs)) = Some (g', t, r')"
        "\<forall>j<i. version_at (drop j (c # cs)) = None" by blast
      have "i = 0"
      proof (rule ccontr)
        assume "i \<noteq> 0"
        then have "version_at (drop 0 (c # cs)) = None" using i(2) by blast
        with Some show False by simp
      qed
      with i(1) Some gtr show "t' = t" by simp
    qed
    finally show ?thesis .
  next
    case None
    have "re_search (c # cs) = Some t \<longleftrightarrow> re_search cs = Some t"
      using None by simp
    also have "\<dots> \<longleftrightarrow> (\<exists>i\<le>length cs. (\<exists>g r. version_at (drop i cs) = Some (g, t, r)) \<and>
        (\<forall>j<i. version_at (drop j cs) = None))" (is "_ \<longleftrightarrow> ?L")
      by (rule Cons.IH)
    also have "?L \<longleftrightarrow>
      (\<exists>i\<le>length (c # cs). (\<exists>g r. version_at (drop i (c # cs)) = Some (g, t, r)) \<and>
        (\<forall>j<i. version_at (drop j (c # cs)) = None))" (is "_ \<longleftrightarrow> ?R")
    proof
      assume ?L
      then obtain i where i: "i \<le> length cs" "\<exists>g r. version_at (drop i cs) = Some (g, t, r)"
        "\<forall>j<i. version_at (drop j cs) = None" by blast
      have "\<forall>j<Suc i. version_at (drop j (c # cs)) = None"
      proof (intro allI impI)
        fix j assume "j < Suc i"
        then show "version_at (drop j (c # cs)) = None"
          using None i(3) by (cases j) auto
      qed
      with i(1,2) have "Suc i \<le> length (c # cs) \<and>
        (\<exists>g r. version_at (drop (Suc i) (c # cs)) = Some (g, t, r)) \<and>
        (\<forall>j<Suc i. version_at (drop j (c # cs)) = None)" by simp
      then show ?R by blast
    next
      assume ?R
      then obtain i where i: "i \<le> length (c # cs)"
        "\<exists>g r. version_at (drop i (c # cs)) = Some (g, t, r)"
        "\<forall>j<i. version_at (drop j (c # cs)) = None" by blast
      from i(2) None obtain i' where i': "i = Suc i'"
        by (cases i) auto
      have "\<forall>j<i'. version_at (drop j cs) = None"
      proof (intro allI impI)
        fix j assume "j < i'"
        then have "Suc j < i" using i' by simp
        with i(3) have "version_at (drop (Suc j) (c # cs)) = None" by blast
        then show "version_at (drop j cs) = None" by simp
      qed
      with i(1,2) i' have "i' \<le> length cs \<and> (\<exists>g r. version_at (drop i' cs) = Some (g, t, r)) \<and>
        (\<forall>j<i'. version_at (drop j cs) = None)" by simp
      then show ?L by blast
    qed
    finally show ?thesis .
  qed
qed

lemma re_sub_occurrence:
  assumes "pre = [] \<or> last pre = newline"
    and "blank ws1" "blank ws2" "number a" "number b" "number c"
  shows "re_sub v True (pre @ occurrence ws1 ws2 a b c @ post)
           = re_sub v True pre @ assignment ws1 ws2 @ [dquote] @ v @ [dquote] @ re_sub v False post"
proof -
  obtain x where "occurrence ws1 ws2 a b c = CHR ''v'' # x"
    by (auto simp: occurrence_def assignment_def)
  then have "hd (occurrence ws1 ws2 a b c @ post) = CHR ''v''"
    by simp
  then have "re_sub v True (pre @ (occurrence ws1 ws2 a b c @ post))
      = re_sub v True pre @ re_sub v (bol_after True pre) (occurrence ws1 ws2 a b c @ post)"
    by (intro re_sub_append) simp
  moreover have "bol_after True pre = True"
    using assms(1) by (auto simp: bol_after_def)
  moreover have "re_sub v True (occurrence ws1 ws2 a b c @ post)
      = assignment ws1 ws2 @ [dquote] @ v @ [dquote] @ re_sub v False post"
    by (rule re_sub_match [OF _ version_at_run [OF assms(2-6)]]) simp
  ultimately show ?thesis by simp
qed

lemma re_search_rust_version: "re_search rust_version_manifest = Some ''1.70.0''"
  unfolding rust_version_manifest_def by code_simp

lemma re_sub_rust_version:
  \<open>re_sub ''1.3.0'' True rust_version_manifest
     = ''rust-version = "1.70.0"\<newline>version = "1.3.0"\<newline>''\<close>
  unfolding rust_version_manifest_def by code_simp

lemma re_search_after_sub:
  "re_search (re_sub ''1.3.0'' True rust_version_manifest) = Some ''1.70.0''"
  unfolding re_sub_rust_version by code_simp

lemma not_digit_newline: "\<not> is_digit newline"
  by (simp add: is_digit_def newline_def)

lemma re_search_None_iff:
  "re_search s = None \<longleftrightarrow> (\<forall>j<length s. version_at (drop j s) = None)"
proof (induction s)
  case Nil
  show ?case by simp
next
  case (Cons c cs)
  show ?case
  proof (cases "version_at (c # cs)")
    case (Some gtr)
    then have "re_search (c # cs) \<noteq> None"
      by (cases gtr) auto
    moreover have "\<not> (\<forall>j<length (c # cs). version_at (drop j (c # cs)) = None)"
    proof
      assume a: "\<forall>j<length (c # cs). version_at (drop j (c # cs)) = None"
      have "0 < length (c # cs)" by simp
      with a have "version_at (drop 0 (c # cs)) = None" by blast
      with Some show False by simp
    qed
    ultimately show ?thesis by blast
  next
    case None
    have "(\<forall>j<length (c # cs). version_at (drop j (c # cs)) = None)
        \<longleftrightarrow> (\<forall>j<length cs. version_at (drop j cs) = None)"
    proof
      assume a: "\<forall>j<length (c # cs). version_at (drop j (c # cs)) = None"
      show "\<forall>j<length cs. version_at (drop j cs) = None"
      proof (intro allI impI)
        fix j assume "j < length cs"
        with a have "version_at (drop (Suc j) (c # cs)) = None" by auto
        then show "version_at (drop j cs) = None" by simp
      qed
    next
      assume a: "\<forall>j<length cs. version_at (drop j cs) = None"
      show "\<forall>j<length (c # cs). version_at (drop j (c # cs)) = None"
      proof (intro allI impI)
        fix j assume "j < length (c # cs)"
        with a None show "version_at (drop j (c # cs)) = None"
          by (cases j) auto
      qed
    qed
    with None Cons.IH show ?thesis by simp
  qed
qed

lemma re_sub_no_match:
  assumes "re_search s = None"
  shows "re_sub v bol s = s"
  using assms
proof (induction s arbitrary: bol)
  case Nil
  show ?case by (simp add: re_sub_Nil)
next
  case (Cons c cs)
  from Cons.prems have n: "version_at (c # cs) = None" and r: "re_search cs = None"
    by (auto split: option.splits)
  have "re_sub v bol (c # cs) = c # re_sub v (c = newline) cs"
    by (rule re_sub_step) (rule n)
  with Cons.IH [OF r] show ?case by simp
qed

lemma re_search_first:
  assumes "re_search pre = None"
    and "blank ws1" "blank ws2" "number a" "number b" "number c"
  shows "re_search (pre @ occurrence ws1 ws2 a b c @ post) = Some (dotted a b c)"
proof -
  let ?m = "pre @ occurrence ws1 ws2 a b c @ post"
  obtain x where v: "occurrence ws1 ws2 a b c = CHR ''v'' # x"
    by (auto simp: occurrence_def assignment_def)
  have at: "version_at (drop (length pre) ?m) = Some (assignment ws1 ws2, dotted a b c, post)"
    using version_at_run [OF assms(2-6), of post] by simp
  have before: "\<forall>j<length pre. version_at (drop j ?m) = None"
  proof (intro allI impI)
    fix j assume j: "j < length pre"
    with assms(1) have "version_at (drop j pre) = None"
      by (simp add: re_search_None_iff)
    moreover from j have "drop j pre \<noteq> []" by simp
    ultimately have "version_at (drop j pre @ (occurrence ws1 ws2 a b c @ post)) = None"
      by (rule version_at_append_None) (simp add: v)
    with j show "version_at (drop j ?m) = None" by simp
  qed
  have "length pre \<le> length ?m" by simp
  with at before show ?thesis
    unfolding re_search_Some_iff by blast
qed

section \<open>Properties of the validation\<close>

lemma is_valid_version_iff:
  "is_valid_version s \<longleftrightarrow>
     (\<exists>a b c. number a \<and> number b \<and> number c \<and>
        (s = dotted a b c \<or> s = dotted a b c @ [newline]))"
proof
  assume "is_valid_version s"
  then obtain t r where t: "triple s = Some (t, r)" and r: "r = [] \<or> r = [newline]"
    by (auto simp: is_valid_version_def split: option.splits)
  from triple_Some [OF t] r show "\<exists>a b c. number a \<and> number b \<and> number c \<and>
        (s = dotted a b c \<or> s = dotted a b c @ [newline])"
    by auto
next
  assume "\<exists>a b c. number a \<and> number b \<and> number c \<and>
        (s = dotted a b c \<or> s = dotted a b c @ [newline])"
  then obtain a b c where n: "number a" "number b" "number c"
    and s: "s = dotted a b c @ [] \<or> s = dotted a b c @ [newline]"
    by auto
  from s show "is_valid_version s"
  proof
    assume "s = dotted a b c @ []"
    with triple_run [OF n, of "[]"] show ?thesis
      by (simp add: is_valid_version_def)
  next
    assume "s = dotted a b c @ [newline]"
    with triple_run [OF n, of "[newline]"] show ?thesis
      by (simp add: is_valid_version_def not_digit_newline)
  qed
qed

text \<open>
  Claim C2 at the input \<^verbatim>\<open>"1.2.3\n"\<close>: the validation accepts it, and it is not three
  numbers with dots between them, since it ends with a newline.
\<close>

theorem is_valid_version_trailing_newline:
  "is_valid_version (''1.2.3'' @ [newline]) \<and>
   \<not> (\<exists>a b c. number a \<and> number b \<and> number c \<and> ''1.2.3'' @ [newline] = dotted a b c)"
proof
  show "is_valid_version (''1.2.3'' @ [newline])"
    unfolding newline_def by code_simp
next
  show "\<not> (\<exists>a b c. number a \<and> number b \<and> number c \<and> ''1.2.3'' @ [newline] = dotted a b c)"
  proof
    assume "\<exists>a b c. number a \<and> number b \<and> number c \<and> ''1.2.3'' @ [newline] = dotted a b c"
    then obtain a b c where c: "number c" and eq: "''1.2.3'' @ [newline] = dotted a b c"
      by blast
    from c have "c \<noteq> []" "is_digit (last c)"
      by (auto simp: number_def list_all_iff)
    moreover have "last c = newline"
    proof -
      have "last (dotted a b c) = last c"
        using \<open>c \<noteq> []\<close> by (simp add: dotted_def)
      moreover have "last (''1.2.3'' @ [newline]) = newline"
        by simp
      ultimately show ?thesis
        unfolding eq by simp
    qed
    ultimately show False
      by (simp add: not_digit_newline)
  qed
qed

section \<open>Properties of the line ends\<close>

lemma universal_newlines_Cons:
  "c \<noteq> CR \<Longrightarrow> universal_newlines (c # cs) = c # universal_newlines cs"
  by (cases cs) auto

lemma universal_newlines_id: "CR \<notin> set s \<Longrightarrow> universal_newlines s = s"
  by (induction s) (auto simp: universal_newlines_Cons)

lemma universal_newlines_append:
  assumes "ys = [] \<or> hd ys \<noteq> newline"
  shows "universal_newlines (xs @ ys) = universal_newlines xs @ universal_newlines ys"
  using assms
proof (induction xs rule: universal_newlines.induct)
  case 1
  show ?case by simp
next
  case (2 c)
  then show ?case
    by (cases ys) (auto simp: universal_newlines_Cons)
next
  case (3 c d cs)
  then show ?case by auto
qed

lemma universal_newlines_append_last:
  assumes "xs = [] \<or> last xs \<noteq> CR"
  shows "universal_newlines (xs @ ys) = universal_newlines xs @ universal_newlines ys"
  using assms
proof (induction xs rule: universal_newlines.induct)
  case 1
  show ?case by simp
next
  case (2 c)
  then show ?case
    by (simp add: universal_newlines_Cons)
next
  case (3 c d cs)
  then show ?case
    by (cases "cs = []") (auto simp: CR_def newline_def)
qed

lemma universal_newlines_last:
  assumes "xs \<noteq> []" and "last xs = newline \<or> last xs = CR"
  shows "universal_newlines xs \<noteq> [] \<and> last (universal_newlines xs) = newline"
  using assms
proof (induction xs rule: universal_newlines.induct)
  case 1
  then show ?case by simp
next
  case (2 c)
  then show ?case by auto
next
  case (3 c d cs)
  then show ?case
    by (cases cs) (auto simp: CR_def newline_def)
qed

lemma universal_newlines_hd:
  assumes "ys \<noteq> []" and "hd ys = newline \<or> hd ys = CR"
  shows "universal_newlines ys \<noteq> [] \<and> hd (universal_newlines ys) = newline"
proof -
  from assms obtain c cs where ys: "ys = c # cs" and c: "c = newline \<or> c = CR"
    by (cases ys) auto
  show ?thesis
    unfolding ys using c by (cases cs) (auto simp: CR_def newline_def)
qed

lemma write_newlines_Nil: "write_newlines sep [] = []"
  by (simp add: write_newlines_def)

lemma write_newlines_append:
  "write_newlines sep (xs @ ys) = write_newlines sep xs @ write_newlines sep ys"
  by (simp add: write_newlines_def)

lemma write_newlines_id: "newline \<notin> set s \<Longrightarrow> write_newlines sep s = s"
  by (induction s) (auto simp: write_newlines_def)

lemma write_newlines_newline: "write_newlines [newline] s = s"
  by (induction s) (auto simp: write_newlines_def)

lemma write_newlines_last:
  assumes "xs \<noteq> []" and "last xs = newline"
  shows "\<exists>zs. write_newlines sep xs = zs @ sep"
proof -
  from assms have "xs = butlast xs @ [newline]"
    by (metis append_butlast_last_id)
  then have "write_newlines sep xs = write_newlines sep (butlast xs) @ write_newlines sep [newline]"
    by (metis write_newlines_append)
  then show ?thesis
    by (auto simp: write_newlines_def)
qed

lemma write_newlines_hd:
  assumes "ys \<noteq> []" and "hd ys = newline"
  shows "\<exists>zs. write_newlines sep ys = sep @ zs"
proof -
  from assms obtain cs where "ys = newline # cs"
    by (cases ys) auto
  then show ?thesis
    by (auto simp: write_newlines_def)
qed

section \<open>Properties of a run\<close>

lemmas io_defs =
  seq_def return_def raise_def log_def shutil_which_def subprocess_run_def check_output_def
  read_manifest_def write_manifest_def input_line_def except_CalledProcessError_def

lemmas script_defs =
  check_tool_installed_def check_branch_def check_uncommitted_changes_def
  get_current_version_def update_version_def run_checks_def show_changes_def
  commit_and_push_def

lemmas step_defs =
  tools_installed_def on_main_branch_def tree_clean_def manifest_has_version_def
  checks_pass_def publish_succeeds_def

lemma re_search_append:
  assumes "version_at s \<noteq> None"
  shows "re_search (pre @ s) \<noteq> None"
proof (induction pre)
  case Nil
  from assms obtain c cs where "s = c # cs"
    by (cases s) (auto simp: version_at_Nil)
  with assms show ?case by auto
next
  case (Cons c pre)
  then show ?case
    by (cases "version_at (c # pre @ s)") auto
qed

lemma re_sub_last:
  assumes "p \<noteq> []"
  shows "re_sub v bol p \<noteq> [] \<and> last (re_sub v bol p) = last p"
  using assms
proof (induction v bol p rule: re_sub.induct)
  case (1 v bol p)
  from "1.prems" obtain c cs where p: "p = c # cs"
    by (cases p) auto
  show ?case
  proof (cases "if bol then version_at p else None")
    case None
    then have step: "re_sub v bol (c # cs) = c # re_sub v (c = newline) cs"
      using p by (intro re_sub_step) (auto split: if_splits)
    show ?thesis
    proof (cases cs)
      case Nil
      with step p show ?thesis by (simp add: re_sub_Nil)
    next
      case (Cons d ds)
      with "1.IH"(1) [OF None p] have "re_sub v (c = newline) cs \<noteq> [] \<and>
        last (re_sub v (c = newline) cs) = last cs" by simp
      with step p Cons show ?thesis by simp
    qed
  next
    case (Some gtr)
    obtain g t r where gtr: "gtr = (g, t, r)" by (cases gtr) auto
    from Some gtr have bol: bol and va: "version_at p = Some (g, t, r)"
      by (auto split: if_splits)
    from version_at_Some [OF va] obtain ws1 ws2 a b c where
      pr: "p = occurrence ws1 ws2 a b c @ r" by blast
    have m: "re_sub v bol p = g @ [dquote] @ v @ [dquote] @ re_sub v False r"
      by (rule re_sub_match [OF bol va])
    show ?thesis
    proof (cases r)
      case Nil
      with m pr show ?thesis
        by (simp add: re_sub_Nil occurrence_def)
    next
      case (Cons d ds)
      with "1.IH"(2) [OF Some gtr [symmetric] refl] have "re_sub v False r \<noteq> [] \<and>
        last (re_sub v False r) = last r" by simp
      with m pr Cons show ?thesis by simp
    qed
  qed
qed

lemma re_sub_hd:
  assumes "post \<noteq> []" and "hd post = newline"
  shows "re_sub v False post \<noteq> [] \<and> hd (re_sub v False post) = newline"
proof -
  from assms obtain cs where post: "post = newline # cs"
    by (cases post) auto
  have "re_sub v False (newline # cs) = newline # re_sub v (newline = newline) cs"
    by (rule re_sub_step) simp
  with post show ?thesis by simp
qed

lemma version_line_occurrence:
  "version_line (dotted a b c) = occurrence '' '' '' '' a b c"
  "version_line t = assignment '' '' '' '' @ [dquote] @ t @ [dquote]"
  by (simp_all add: version_line_def occurrence_def assignment_def)

lemma is_valid_version_1_3_0: "is_valid_version ''1.3.0''"
  by code_simp

lemma env_ok_steps:
  "tools_installed env_ok" "on_main_branch env_ok" "tree_clean env_ok" "checks_pass env_ok"
  "publish_succeeds env_ok v"
  by (simp_all add: step_defs env_ok_def strip_def is_space_def newline_def)

lemma env_dirty_steps:
  "tools_installed env_dirty" "on_main_branch env_dirty" "\<not> tree_clean env_dirty"
  by (simp_all add: step_defs env_dirty_def env_ok_def strip_def is_space_def newline_def)

lemma env_tests_fail_steps:
  "tools_installed env_tests_fail" "on_main_branch env_tests_fail" "tree_clean env_tests_fail"
  "\<not> checks_pass env_tests_fail"
  by (simp_all add: step_defs env_tests_fail_def env_ok_def strip_def is_space_def newline_def)

lemma env_push_fails_steps:
  "tools_installed env_push_fails" "on_main_branch env_push_fails" "tree_clean env_push_fails"
  "checks_pass env_push_fails"
  by (simp_all add: step_defs env_push_fails_def env_ok_def strip_def is_space_def newline_def)

lemma linesep_env_ok: "linesep env_ok = [newline]"
  by (simp add: env_ok_def)

lemma universal_newlines_manifest_123: "universal_newlines manifest_123 = manifest_123"
  by (rule universal_newlines_id) (simp add: manifest_123_def CR_def)

lemma re_search_manifest_123: "re_search (universal_newlines manifest_123) = Some ''1.2.3''"
  unfolding universal_newlines_manifest_123 manifest_123_def by code_simp

lemma re_sub_manifest_123:
  "write_newlines [newline] (re_sub ''1.3.0'' True (universal_newlines manifest_123)) = manifest_130"
  unfolding universal_newlines_manifest_123 write_newlines_newline manifest_123_def manifest_130_def
  by code_simp

lemma re_sub_manifest_123_read:
  "re_sub ''1.3.0'' True (universal_newlines manifest_123) = manifest_130"
  using re_sub_manifest_123 by (simp only: write_newlines_newline)

lemma lower_y: "lower ''y'' = ''y''"
  by (simp add: lower_def lower_char_def)

lemma not_valid_1_3: "\<not> is_valid_version ''1.3''"
  by code_simp

text \<open>
  Claim C6. The exit status of a run is 0 when every step succeeds and 1 otherwise. The
  steps are those of \<open>all_steps_succeed\<close>: both tools are installed, the branch is
  \<^verbatim>\<open>main\<close>, the tree is clean, the manifest has a version, the operator's version is
  valid, \<^verbatim>\<open>cargo check\<close> and \<^verbatim>\<open>cargo test\<close> return 0, the operator answers \<^verbatim>\<open>y\<close>, and
  the five git commands of \<^verbatim>\<open>commit_and_push\<close> return 0. A manifest that cannot be read
  and an end of input at a prompt end the run with 1 as well.
\<close>

theorem main_exit_code:
  "exit_code (fst (main e w)) = (if all_steps_succeed e w then 0 else 1)"
  unfolding main_def all_steps_succeed_def step_defs script_defs
  by (simp add: io_defs exit_code_def split: option.split list.split)

theorem main_exit_code_witness:
  "all_steps_succeed env_ok (fresh manifest_123 [''1.3.0'', ''y'']) \<and>
   exit_code (fst (main env_ok (fresh manifest_123 [''1.3.0'', ''y'']))) = 0 \<and>
   \<not> all_steps_succeed env_dirty (fresh manifest_123 [''1.3.0'', ''y'']) \<and>
   exit_code (fst (main env_dirty (fresh manifest_123 [''1.3.0'', ''y'']))) = 1"
proof -
  have ok: "all_steps_succeed env_ok (fresh manifest_123 [''1.3.0'', ''y''])"
    by (simp add: all_steps_succeed_def env_ok_steps manifest_has_version_def fresh_def
        re_search_manifest_123 is_valid_version_1_3_0 lower_y)
  have dirty: "\<not> all_steps_succeed env_dirty (fresh manifest_123 [''1.3.0'', ''y''])"
    by (simp add: all_steps_succeed_def env_dirty_steps)
  show ?thesis
    using main_exit_code [of env_ok "fresh manifest_123 [''1.3.0'', ''y'']"]
      main_exit_code [of env_dirty "fresh manifest_123 [''1.3.0'', ''y'']"] ok dirty
    by simp
qed

text \<open>
  Claim C3. When the version the operator gives is not valid, the run ends with status 1,
  the manifest is what it was, and no event of the run writes the manifest, commits,
  pushes or tags. When the steps before the prompt succeed, the run is: the two lookups,
  the two git queries, one read of the manifest, the prompt, and \<^verbatim>\<open>sys.exit(1)\<close>.
\<close>

theorem invalid_version_stops:
  assumes "stdin w = new_version # rest" and "\<not> is_valid_version new_version"
    and "trace w = []"
  shows "exit_code (fst (main e w)) = 1 \<and>
         manifest (snd (main e w)) = manifest w \<and>
         (\<forall>ev\<in>set (trace (snd (main e w))). \<not> writes ev \<and> \<not> publishes ev) \<and>
         (tools_installed e \<and> on_main_branch e \<and> tree_clean e \<and>
          manifest w = Some content \<and>
          re_search (universal_newlines content) = Some current_version \<longrightarrow>
          main e w =
            (Inl (SystemExit 1),
             w\<lparr>stdin := rest,
               trace := [Which ''git'', Which ''cargo'',
                         Run [''git'', ''rev-parse'', ''--abbrev-ref'', ''HEAD''],
                         Run [''git'', ''diff-index'', ''--quiet'', ''HEAD'', ''--''],
                         Read_manifest, Input (version_prompt current_version)]\<rparr>))"
  using assms unfolding main_def step_defs script_defs
  by (simp add: io_defs exit_code_def split: option.split list.split)

theorem invalid_version_stops_witness:
  "\<not> is_valid_version ''1.3'' \<and>
   exit_code (fst (main env_ok (fresh manifest_123 [''1.3'', ''y'']))) = 1 \<and>
   manifest (snd (main env_ok (fresh manifest_123 [''1.3'', ''y'']))) = Some manifest_123 \<and>
   list_all (\<lambda>ev. \<not> writes ev \<and> \<not> publishes ev)
     (trace (snd (main env_ok (fresh manifest_123 [''1.3'', ''y''])))) \<and>
   main env_ok (fresh manifest_123 [''1.3'', ''y'']) =
     (Inl (SystemExit 1),
      \<lparr>manifest = Some manifest_123, stdin = [''y''],
       trace = [Which ''git'', Which ''cargo'',
                Run [''git'', ''rev-parse'', ''--abbrev-ref'', ''HEAD''],
                Run [''git'', ''diff-index'', ''--quiet'', ''HEAD'', ''--''],
                Read_manifest, Input (version_prompt ''1.2.3'')]\<rparr>)"
proof -
  have "stdin (fresh manifest_123 [''1.3'', ''y'']) = ''1.3'' # [''y'']"
    "trace (fresh manifest_123 [''1.3'', ''y'']) = []"
    by (simp_all add: fresh_def)
  from invalid_version_stops [OF this(1) not_valid_1_3 this(2), of env_ok manifest_123 "''1.2.3''"]
  show ?thesis
    using env_ok_steps(1-3) re_search_manifest_123 not_valid_1_3
    by (simp add: fresh_def list_all_iff exit_code_def)
qed

text \<open>
  Claim C4. When \<^verbatim>\<open>git diff-index\<close> does not return 0, the run ends with status 1, the
  manifest and the standard input are what they were, and no event of the run is a
  prompt, a read or a write of the manifest. When the steps before succeed, the run is:
  the two lookups, the two git queries, and \<^verbatim>\<open>sys.exit(1)\<close>.
\<close>

theorem uncommitted_changes_stop:
  assumes "\<not> tree_clean e" and "trace w = []"
  shows "exit_code (fst (main e w)) = 1 \<and>
         manifest (snd (main e w)) = manifest w \<and>
         stdin (snd (main e w)) = stdin w \<and>
         (\<forall>ev\<in>set (trace (snd (main e w))). \<not> prompts ev \<and> \<not> reads ev \<and> \<not> writes ev) \<and>
         (tools_installed e \<and> on_main_branch e \<longrightarrow>
          main e w =
            (Inl (SystemExit 1),
             w\<lparr>trace := [Which ''git'', Which ''cargo'',
                         Run [''git'', ''rev-parse'', ''--abbrev-ref'', ''HEAD''],
                         Run [''git'', ''diff-index'', ''--quiet'', ''HEAD'', ''--'']]\<rparr>))"
  using assms unfolding main_def step_defs script_defs
  by (simp add: io_defs exit_code_def split: option.split list.split)

theorem uncommitted_changes_stop_witness:
  "\<not> tree_clean env_dirty \<and>
   exit_code (fst (main env_dirty (fresh manifest_123 [''1.3.0'', ''y'']))) = 1 \<and>
   list_all (\<lambda>ev. \<not> prompts ev \<and> \<not> reads ev \<and> \<not> writes ev)
     (trace (snd (main env_dirty (fresh manifest_123 [''1.3.0'', ''y''])))) \<and>
   main env_dirty (fresh manifest_123 [''1.3.0'', ''y'']) =
     (Inl (SystemExit 1),
      \<lparr>manifest = Some manifest_123, stdin = [''1.3.0'', ''y''],
       trace = [Which ''git'', Which ''cargo'',
                Run [''git'', ''rev-parse'', ''--abbrev-ref'', ''HEAD''],
                Run [''git'', ''diff-index'', ''--quiet'', ''HEAD'', ''--'']]\<rparr>)"
proof -
  have "trace (fresh manifest_123 [''1.3.0'', ''y'']) = []"
    by (simp add: fresh_def)
  from uncommitted_changes_stop [OF env_dirty_steps(3) this]
  show ?thesis
    using env_dirty_steps by (simp add: fresh_def list_all_iff exit_code_def)
qed

text \<open>
  Claim C7. The manifest has the line \<^verbatim>\<open>version = "1.2.3"\<close>, the operator gives 1.3.0,
  the checks pass, the operator answers \<^verbatim>\<open>y\<close>, and the git commands up to the tag return
  0. Then the manifest after the run has the line \<^verbatim>\<open>version = "1.3.0"\<close> in that place (the
  text before it still ends with a line end, and the text after it still starts with one
  when it did), the run has the commit with the message
  \<^verbatim>\<open>:rocket: Release version 1.3.0\<close>, and its only tag command is \<^verbatim>\<open>git tag v1.3.0\<close>.
  The text before and the text after the line are what the reading, the substitution and
  the writing make of them.
\<close>

theorem release_1_3_0:
  assumes "tools_installed e" and "on_main_branch e" and "tree_clean e" and "checks_pass e"
    and "manifest w = Some (pre @ version_line ''1.2.3'' @ post)"
    and "pre = [] \<or> last pre = newline \<or> last pre = CR"
    and "stdin w = ''1.3.0'' # answer # rest" and "lower answer = ''y''"
    and "fst (command e [''git'', ''add'', ''Cargo.*'']) = 0"
    and "fst (command e [''git'', ''commit'', ''-m'', '':rocket: Release version 1.3.0'']) = 0"
    and "fst (command e [''git'', ''push'']) = 0"
    and "fst (command e [''git'', ''tag'', ''v1.3.0'']) = 0"
    and "trace w = []"
  shows "manifest (snd (main e w))
           = Some (write_newlines (linesep e) (re_sub ''1.3.0'' True (universal_newlines pre))
                   @ version_line ''1.3.0''
                   @ write_newlines (linesep e) (re_sub ''1.3.0'' False (universal_newlines post))) \<and>
         (write_newlines (linesep e) (re_sub ''1.3.0'' True (universal_newlines pre)) = [] \<or>
          (\<exists>zs. write_newlines (linesep e) (re_sub ''1.3.0'' True (universal_newlines pre))
                  = zs @ linesep e)) \<and>
         (post = [] \<or> hd post = newline \<or> hd post = CR \<longrightarrow>
            write_newlines (linesep e) (re_sub ''1.3.0'' False (universal_newlines post)) = [] \<or>
            (\<exists>zs. write_newlines (linesep e) (re_sub ''1.3.0'' False (universal_newlines post))
                    = linesep e @ zs)) \<and>
         Run [''git'', ''commit'', ''-m'', '':rocket: Release version '' @ ''1.3.0'']
           \<in> set (trace (snd (main e w))) \<and>
         filter tags (trace (snd (main e w))) = [Run [''git'', ''tag'', ''v'' @ ''1.3.0'']]"
proof -
  let ?content = "universal_newlines (pre @ version_line ''1.2.3'' @ post)"
  let ?A = "re_sub ''1.3.0'' True (universal_newlines pre)"
  let ?B = "re_sub ''1.3.0'' False (universal_newlines post)"
  have n: "blank '' ''" "number ''1''" "number ''2''" "number ''3''"
    by (simp_all add: blank_def number_def is_space_def is_digit_def)
  have line: "version_line ''1.2.3'' = occurrence '' '' '' '' ''1'' ''2'' ''3''"
    using version_line_occurrence(1) [of "''1''" "''2''" "''3''"] by (simp add: dotted_def)
  have chars: "newline \<notin> set (version_line ''1.2.3'')" "CR \<notin> set (version_line ''1.2.3'')"
    "newline \<notin> set (version_line ''1.3.0'')"
    by (simp_all add: version_line_def dquote_def newline_def CR_def)
  have "hd (version_line ''1.2.3'' @ post) \<noteq> newline"
    by (simp add: version_line_def newline_def)
  then have "?content = universal_newlines pre @ universal_newlines (version_line ''1.2.3'' @ post)"
    by (intro universal_newlines_append) simp
  moreover have "last (version_line ''1.2.3'') \<noteq> CR"
    by (simp add: version_line_def dquote_def CR_def)
  then have "universal_newlines (version_line ''1.2.3'' @ post)
      = universal_newlines (version_line ''1.2.3'') @ universal_newlines post"
    by (intro universal_newlines_append_last) simp
  ultimately have content: "?content = universal_newlines pre @ version_line ''1.2.3'' @ universal_newlines post"
    by (simp add: universal_newlines_id [OF chars(2)])
  have bol: "universal_newlines pre = [] \<or> last (universal_newlines pre) = newline"
  proof (cases "pre = []")
    case True
    then show ?thesis by simp
  next
    case False
    with assms(6) universal_newlines_last [OF False] show ?thesis by simp
  qed
  have "re_sub ''1.3.0'' True (universal_newlines pre @ version_line ''1.2.3'' @ universal_newlines post)
      = ?A @ version_line ''1.3.0'' @ ?B"
    unfolding line version_line_occurrence(2) [of "''1.3.0''"]
    using re_sub_occurrence [OF bol n(1) n(1) n(2) n(3) n(4), of "''1.3.0''" "universal_newlines post"]
    by simp
  then have sub: "re_sub ''1.3.0'' True ?content = ?A @ version_line ''1.3.0'' @ ?B"
    unfolding content .
  have written: "write_newlines (linesep e) (re_sub ''1.3.0'' True ?content)
      = write_newlines (linesep e) ?A @ version_line ''1.3.0'' @ write_newlines (linesep e) ?B"
    unfolding sub write_newlines_append write_newlines_id [OF chars(3)] ..
  have "version_at (version_line ''1.2.3'' @ universal_newlines post) \<noteq> None"
    unfolding line using version_at_run [OF n(1) n(1) n(2) n(3) n(4), of "universal_newlines post"]
    by simp
  from re_search_append [OF this, of "universal_newlines pre"] obtain current_version where
    cur: "re_search ?content = Some current_version"
    unfolding content by auto
  have world: "snd (main e w) =
      w\<lparr>manifest := Some (write_newlines (linesep e) (re_sub ''1.3.0'' True ?content)),
        stdin := rest,
        trace := [Which ''git'', Which ''cargo'',
                  Run [''git'', ''rev-parse'', ''--abbrev-ref'', ''HEAD''],
                  Run [''git'', ''diff-index'', ''--quiet'', ''HEAD'', ''--''],
                  Read_manifest, Input (version_prompt current_version),
                  Read_manifest,
                  Write_manifest (re_sub ''1.3.0'' True ?content),
                  Run [''cargo'', ''check''], Run [''cargo'', ''test''],
                  Run [''git'', ''status'', ''--porcelain''], Input confirm_prompt,
                  Run [''git'', ''add'', ''Cargo.*''],
                  Run [''git'', ''commit'', ''-m'', '':rocket: Release version 1.3.0''],
                  Run [''git'', ''push''], Run [''git'', ''tag'', ''v1.3.0''],
                  Run [''git'', ''push'', ''--tags'']]\<rparr>"
    using assms(1-5,7-13) cur is_valid_version_1_3_0
    unfolding main_def step_defs script_defs
    by (simp add: io_defs split: option.split list.split)
  have before: "write_newlines (linesep e) ?A = [] \<or>
      (\<exists>zs. write_newlines (linesep e) ?A = zs @ linesep e)"
  proof (cases "pre = []")
    case True
    then show ?thesis by (simp add: re_sub_Nil write_newlines_Nil)
  next
    case False
    from universal_newlines_last [OF False] assms(6) False
    have u: "universal_newlines pre \<noteq> []" "last (universal_newlines pre) = newline"
      by simp_all
    from re_sub_last [OF u(1), of "''1.3.0''" True] u(2)
    have "?A \<noteq> []" "last ?A = newline" by simp_all
    then show ?thesis
      using write_newlines_last [of ?A "linesep e"] by blast
  qed
  have after: "write_newlines (linesep e) ?B = [] \<or>
      (\<exists>zs. write_newlines (linesep e) ?B = linesep e @ zs)"
    if "post = [] \<or> hd post = newline \<or> hd post = CR"
  proof (cases "post = []")
    case True
    then show ?thesis by (simp add: re_sub_Nil write_newlines_Nil)
  next
    case False
    from universal_newlines_hd [OF False] that False
    have u: "universal_newlines post \<noteq> []" "hd (universal_newlines post) = newline"
      by simp_all
    from re_sub_hd [OF u, of "''1.3.0''"]
    have "?B \<noteq> []" "hd ?B = newline" by simp_all
    then show ?thesis
      using write_newlines_hd [of ?B "linesep e"] by blast
  qed
  have 1: "manifest (snd (main e w))
      = Some (write_newlines (linesep e) ?A @ version_line ''1.3.0'' @ write_newlines (linesep e) ?B)"
    unfolding world written by simp
  have 2: "Run [''git'', ''commit'', ''-m'', '':rocket: Release version '' @ ''1.3.0'']
      \<in> set (trace (snd (main e w)))"
    unfolding world by simp
  have 3: "filter tags (trace (snd (main e w))) = [Run [''git'', ''tag'', ''v'' @ ''1.3.0'']]"
    unfolding world by simp
  from 1 before after 2 3 show ?thesis
    by blast
qed

theorem release_1_3_0_witness:
  \<open>manifest_123 = ''[package]\<newline>name = "git-iris"\<newline>'' @ version_line ''1.2.3'' @ ''\<newline>'' \<and>
   manifest (snd (main env_ok (fresh manifest_123 [''1.3.0'', ''y'']))) = Some manifest_130 \<and>
   manifest_130 = ''[package]\<newline>name = "git-iris"\<newline>'' @ version_line ''1.3.0'' @ ''\<newline>'' \<and>
   Run [''git'', ''commit'', ''-m'', '':rocket: Release version 1.3.0'']
     \<in> set (trace (snd (main env_ok (fresh manifest_123 [''1.3.0'', ''y''])))) \<and>
   filter tags (trace (snd (main env_ok (fresh manifest_123 [''1.3.0'', ''y'']))))
     = [Run [''git'', ''tag'', ''v1.3.0'']]\<close>
proof -
  let ?pre = \<open>''[package]\<newline>name = "git-iris"\<newline>''\<close>
  have m: "manifest_123 = ?pre @ version_line ''1.2.3'' @ [newline]"
    by (simp add: manifest_123_def version_line_def dquote_def newline_def)
  have m': "manifest_130 = ?pre @ version_line ''1.3.0'' @ [newline]"
    by (simp add: manifest_130_def version_line_def dquote_def newline_def)
  have w: "manifest (fresh manifest_123 [''1.3.0'', ''y'']) = Some (?pre @ version_line ''1.2.3'' @ [newline])"
    "stdin (fresh manifest_123 [''1.3.0'', ''y'']) = ''1.3.0'' # ''y'' # []"
    "trace (fresh manifest_123 [''1.3.0'', ''y'']) = []"
    using m by (simp_all add: fresh_def)
  have p: "?pre = [] \<or> last ?pre = newline \<or> last ?pre = CR"
    by (simp add: newline_def)
  have c: "fst (command env_ok [''git'', ''add'', ''Cargo.*'']) = 0"
    "fst (command env_ok [''git'', ''commit'', ''-m'', '':rocket: Release version 1.3.0'']) = 0"
    "fst (command env_ok [''git'', ''push'']) = 0"
    "fst (command env_ok [''git'', ''tag'', ''v1.3.0'']) = 0"
    by (simp_all add: env_ok_def)
  have s: "write_newlines [newline] (re_sub ''1.3.0'' True (universal_newlines ?pre)) = ?pre"
    "write_newlines [newline] (re_sub ''1.3.0'' False (universal_newlines [newline])) = [newline]"
    unfolding newline_def by code_simp+
  note t = release_1_3_0 [OF env_ok_steps(1-4) w(1) p w(2) lower_y c w(3),
      unfolded linesep_env_ok s m' [symmetric]]
  have 1: "manifest (snd (main env_ok (fresh manifest_123 [''1.3.0'', ''y'']))) = Some manifest_130"
    by (rule t [THEN conjunct1])
  have 2: "Run [''git'', ''commit'', ''-m'', '':rocket: Release version 1.3.0'']
     \<in> set (trace (snd (main env_ok (fresh manifest_123 [''1.3.0'', ''y'']))))"
    using t [THEN conjunct2, THEN conjunct2, THEN conjunct2, THEN conjunct1] by simp
  have 3: "filter tags (trace (snd (main env_ok (fresh manifest_123 [''1.3.0'', ''y'']))))
     = [Run [''git'', ''tag'', ''v1.3.0'']]"
    using t [THEN conjunct2, THEN conjunct2, THEN conjunct2, THEN conjunct2] by simp
  have m0: \<open>manifest_123 = ''[package]\<newline>name = "git-iris"\<newline>'' @ version_line ''1.2.3'' @ ''\<newline>''\<close>
    using m by (simp add: newline_def)
  have m1: \<open>manifest_130 = ''[package]\<newline>name = "git-iris"\<newline>'' @ version_line ''1.3.0'' @ ''\<newline>''\<close>
    using m' by (simp add: newline_def)
  from m0 1 m1 2 3 show ?thesis
    by (intro conjI)
qed

text \<open>The run from the write on, step by step: where it stops, with which exception, and
  what it leaves.\<close>

lemma run_after_write:
  assumes "tools_installed e" and "on_main_branch e" and "tree_clean e"
    and "manifest w = Some content"
    and "re_search (universal_newlines content) = Some current_version"
    and "stdin w = new_version # rest" and "is_valid_version new_version"
    and "trace w = []"
    and "updated_content = re_sub new_version True (universal_newlines content)"
    and "written = write_newlines (linesep e) updated_content"
    and "before = events_to_write current_version updated_content"
    and "after = events_after_write new_version"
  shows "fst (command e [''cargo'', ''check'']) \<noteq> 0 \<Longrightarrow>
           main e w = (Inl CalledProcessError,
                       w\<lparr>manifest := Some written, stdin := rest, trace := before @ take 1 after\<rparr>)"
    and "fst (command e [''cargo'', ''check'']) = 0 \<Longrightarrow> fst (command e [''cargo'', ''test'']) \<noteq> 0 \<Longrightarrow>
           main e w = (Inl CalledProcessError,
                       w\<lparr>manifest := Some written, stdin := rest, trace := before @ take 2 after\<rparr>)"
    and "checks_pass e \<Longrightarrow> rest = [] \<Longrightarrow>
           main e w = (Inl EOFError,
                       w\<lparr>manifest := Some written, stdin := [], trace := before @ take 4 after\<rparr>)"
    and "checks_pass e \<Longrightarrow> rest = answer # rest' \<Longrightarrow> lower answer \<noteq> ''y'' \<Longrightarrow>
           main e w = (Inl (SystemExit 1),
                       w\<lparr>manifest := Some written, stdin := rest', trace := before @ take 4 after\<rparr>)"
    and "checks_pass e \<Longrightarrow> rest = answer # rest' \<Longrightarrow> lower answer = ''y'' \<Longrightarrow>
         fst (command e [''git'', ''add'', ''Cargo.*'']) \<noteq> 0 \<Longrightarrow>
           main e w = (Inl (SystemExit 1),
                       w\<lparr>manifest := Some written, stdin := rest', trace := before @ take 5 after\<rparr>)"
    and "checks_pass e \<Longrightarrow> rest = answer # rest' \<Longrightarrow> lower answer = ''y'' \<Longrightarrow>
         fst (command e [''git'', ''add'', ''Cargo.*'']) = 0 \<Longrightarrow>
         fst (command e [''git'', ''commit'', ''-m'', '':rocket: Release version '' @ new_version]) \<noteq> 0 \<Longrightarrow>
           main e w = (Inl (SystemExit 1),
                       w\<lparr>manifest := Some written, stdin := rest', trace := before @ take 6 after\<rparr>)"
    and "checks_pass e \<Longrightarrow> rest = answer # rest' \<Longrightarrow> lower answer = ''y'' \<Longrightarrow>
         fst (command e [''git'', ''add'', ''Cargo.*'']) = 0 \<Longrightarrow>
         fst (command e [''git'', ''commit'', ''-m'', '':rocket: Release version '' @ new_version]) = 0 \<Longrightarrow>
         fst (command e [''git'', ''push'']) \<noteq> 0 \<Longrightarrow>
           main e w = (Inl (SystemExit 1),
                       w\<lparr>manifest := Some written, stdin := rest', trace := before @ take 7 after\<rparr>)"
    and "checks_pass e \<Longrightarrow> rest = answer # rest' \<Longrightarrow> lower answer = ''y'' \<Longrightarrow>
         fst (command e [''git'', ''add'', ''Cargo.*'']) = 0 \<Longrightarrow>
         fst (command e [''git'', ''commit'', ''-m'', '':rocket: Release version '' @ new_version]) = 0 \<Longrightarrow>
         fst (command e [''git'', ''push'']) = 0 \<Longrightarrow>
         fst (command e [''git'', ''tag'', ''v'' @ new_version]) \<noteq> 0 \<Longrightarrow>
           main e w = (Inl (SystemExit 1),
                       w\<lparr>manifest := Some written, stdin := rest', trace := before @ take 8 after\<rparr>)"
    and "checks_pass e \<Longrightarrow> rest = answer # rest' \<Longrightarrow> lower answer = ''y'' \<Longrightarrow>
         fst (command e [''git'', ''add'', ''Cargo.*'']) = 0 \<Longrightarrow>
         fst (command e [''git'', ''commit'', ''-m'', '':rocket: Release version '' @ new_version]) = 0 \<Longrightarrow>
         fst (command e [''git'', ''push'']) = 0 \<Longrightarrow>
         fst (command e [''git'', ''tag'', ''v'' @ new_version]) = 0 \<Longrightarrow>
         fst (command e [''git'', ''push'', ''--tags'']) \<noteq> 0 \<Longrightarrow>
           main e w = (Inl (SystemExit 1),
                       w\<lparr>manifest := Some written, stdin := rest', trace := before @ take 9 after\<rparr>)"
  using assms unfolding main_def step_defs script_defs events_to_write_def events_after_write_def
  by (simp_all add: io_defs split: option.split list.split)

text \<open>
  Claim C8. The steps up to the validation succeed and a later one does not. Then the run
  ends with status 1 and the manifest is the one \<^verbatim>\<open>update_version\<close> wrote. The events of
  the run are those up to the write and then the first \<open>k\<close> of the steps that follow the
  write in a run without failure, up to the step that fails: nothing else is run, so
  nothing puts the old manifest back or undoes a commit, a push or a tag. Step by step:
  the run stops after \<^verbatim>\<open>cargo check\<close> or after \<^verbatim>\<open>cargo test\<close> when that command does not
  return 0, after the prompt when the input has ended or the answer is not \<^verbatim>\<open>y\<close>, and
  after the first git command of \<^verbatim>\<open>commit_and_push\<close> that does not return 0.
\<close>

theorem no_rollback:
  assumes "tools_installed e" and "on_main_branch e" and "tree_clean e"
    and "manifest w = Some content"
    and "re_search (universal_newlines content) = Some current_version"
    and "stdin w = new_version # rest" and "is_valid_version new_version"
    and "trace w = []"
    and "updated_content = re_sub new_version True (universal_newlines content)"
    and "written = write_newlines (linesep e) updated_content"
    and "before = events_to_write current_version updated_content"
    and "after = events_after_write new_version"
    and "\<not> all_steps_succeed e w"
  shows "exit_code (fst (main e w)) = 1 \<and>
     manifest (snd (main e w)) = Some written \<and>
     (\<exists>k. 0 < k \<and> k \<le> 9 \<and> trace (snd (main e w)) = before @ take k after) \<and>
     (fst (command e [''cargo'', ''check'']) \<noteq> 0 \<longrightarrow>
        main e w = (Inl CalledProcessError,
                    w\<lparr>manifest := Some written, stdin := rest, trace := before @ take 1 after\<rparr>)) \<and>
     (fst (command e [''cargo'', ''check'']) = 0 \<and> fst (command e [''cargo'', ''test'']) \<noteq> 0 \<longrightarrow>
        main e w = (Inl CalledProcessError,
                    w\<lparr>manifest := Some written, stdin := rest, trace := before @ take 2 after\<rparr>)) \<and>
     (checks_pass e \<and> rest = [] \<longrightarrow>
        main e w = (Inl EOFError,
                    w\<lparr>manifest := Some written, stdin := [], trace := before @ take 4 after\<rparr>)) \<and>
     (checks_pass e \<and> rest = answer # rest' \<and> lower answer \<noteq> ''y'' \<longrightarrow>
        main e w = (Inl (SystemExit 1),
                    w\<lparr>manifest := Some written, stdin := rest', trace := before @ take 4 after\<rparr>)) \<and>
     (checks_pass e \<and> rest = answer # rest' \<and> lower answer = ''y'' \<longrightarrow>
        (fst (command e [''git'', ''add'', ''Cargo.*'']) \<noteq> 0 \<longrightarrow>
           main e w = (Inl (SystemExit 1),
                       w\<lparr>manifest := Some written, stdin := rest', trace := before @ take 5 after\<rparr>)) \<and>
        (fst (command e [''git'', ''add'', ''Cargo.*'']) = 0 \<and>
         fst (command e [''git'', ''commit'', ''-m'', '':rocket: Release version '' @ new_version]) \<noteq> 0 \<longrightarrow>
           main e w = (Inl (SystemExit 1),
                       w\<lparr>manifest := Some written, stdin := rest', trace := before @ take 6 after\<rparr>)) \<and>
        (fst (command e [''git'', ''add'', ''Cargo.*'']) = 0 \<and>
         fst (command e [''git'', ''commit'', ''-m'', '':rocket: Release version '' @ new_version]) = 0 \<and>
         fst (command e [''git'', ''push'']) \<noteq> 0 \<longrightarrow>
           main e w = (Inl (SystemExit 1),
                       w\<lparr>manifest := Some written, stdin := rest', trace := before @ take 7 after\<rparr>)) \<and>
        (fst (command e [''git'', ''add'', ''Cargo.*'']) = 0 \<and>
         fst (command e [''git'', ''commit'', ''-m'', '':rocket: Release version '' @ new_version]) = 0 \<and>
         fst (command e [''git'', ''push'']) = 0 \<and>
         fst (command e [''git'', ''tag'', ''v'' @ new_version]) \<noteq> 0 \<longrightarrow>
           main e w = (Inl (SystemExit 1),
                       w\<lparr>manifest := Some written, stdin := rest', trace := before @ take 8 after\<rparr>)) \<and>
        (fst (command e [''git'', ''add'', ''Cargo.*'']) = 0 \<and>
         fst (command e [''git'', ''commit'', ''-m'', '':rocket: Release version '' @ new_version]) = 0 \<and>
         fst (command e [''git'', ''push'']) = 0 \<and>
         fst (command e [''git'', ''tag'', ''v'' @ new_version]) = 0 \<and>
         fst (command e [''git'', ''push'', ''--tags'']) \<noteq> 0 \<longrightarrow>
           main e w = (Inl (SystemExit 1),
                       w\<lparr>manifest := Some written, stdin := rest', trace := before @ take 9 after\<rparr>)))"
proof -
  note r = run_after_write [OF assms(1-12)]
  have stop: "exit_code (fst (main e w)) = 1 \<and> manifest (snd (main e w)) = Some written \<and>
      (\<exists>k. 0 < k \<and> k \<le> 9 \<and> trace (snd (main e w)) = before @ take k after)"
    if "main e w = (Inl x, w\<lparr>manifest := Some written, stdin := s, trace := before @ take k after\<rparr>)"
      and "0 < k" and "k \<le> 9"
      and "x = CalledProcessError \<or> x = EOFError \<or> x = SystemExit 1" for x s k
  proof -
    from that(1,4) have "exit_code (fst (main e w)) = 1" "manifest (snd (main e w)) = Some written"
      "trace (snd (main e w)) = before @ take k after"
      by (auto simp: exit_code_def)
    with that(2,3) show ?thesis by blast
  qed
  consider (check) "fst (command e [''cargo'', ''check'']) \<noteq> 0"
    | (test) "fst (command e [''cargo'', ''check'']) = 0" "fst (command e [''cargo'', ''test'']) \<noteq> 0"
    | (eof) "checks_pass e" "rest = []"
    | (answered) a r' where "checks_pass e" "rest = a # r'"
    by (cases rest) (auto simp: checks_pass_def)
  then have general: "exit_code (fst (main e w)) = 1 \<and> manifest (snd (main e w)) = Some written \<and>
      (\<exists>k. 0 < k \<and> k \<le> 9 \<and> trace (snd (main e w)) = before @ take k after)"
  proof cases
    case check
    show ?thesis by (rule stop [OF r(1) [OF check]]) simp_all
  next
    case test
    show ?thesis by (rule stop [OF r(2) [OF test]]) simp_all
  next
    case eof
    show ?thesis by (rule stop [OF r(3) [OF eof]]) simp_all
  next
    case (answered a r')
    show ?thesis
    proof (cases "lower a = ''y''")
      case False
      show ?thesis by (rule stop [OF r(4) [OF answered False]]) simp_all
    next
      case True
      from assms(13) assms(1-7) answered True have "\<not> publish_succeeds e new_version"
        by (simp add: all_steps_succeed_def manifest_has_version_def)
      then consider (add) "fst (command e [''git'', ''add'', ''Cargo.*'']) \<noteq> 0"
        | (commit) "fst (command e [''git'', ''add'', ''Cargo.*'']) = 0"
            "fst (command e [''git'', ''commit'', ''-m'', '':rocket: Release version '' @ new_version]) \<noteq> 0"
        | (push) "fst (command e [''git'', ''add'', ''Cargo.*'']) = 0"
            "fst (command e [''git'', ''commit'', ''-m'', '':rocket: Release version '' @ new_version]) = 0"
            "fst (command e [''git'', ''push'']) \<noteq> 0"
        | (tag) "fst (command e [''git'', ''add'', ''Cargo.*'']) = 0"
            "fst (command e [''git'', ''commit'', ''-m'', '':rocket: Release version '' @ new_version]) = 0"
            "fst (command e [''git'', ''push'']) = 0"
            "fst (command e [''git'', ''tag'', ''v'' @ new_version]) \<noteq> 0"
        | (push_tags) "fst (command e [''git'', ''add'', ''Cargo.*'']) = 0"
            "fst (command e [''git'', ''commit'', ''-m'', '':rocket: Release version '' @ new_version]) = 0"
            "fst (command e [''git'', ''push'']) = 0"
            "fst (command e [''git'', ''tag'', ''v'' @ new_version]) = 0"
            "fst (command e [''git'', ''push'', ''--tags'']) \<noteq> 0"
        unfolding publish_succeeds_def by blast
      then show ?thesis
      proof cases
        case add
        show ?thesis by (rule stop [OF r(5) [OF answered True add]]) simp_all
      next
        case commit
        show ?thesis by (rule stop [OF r(6) [OF answered True commit]]) simp_all
      next
        case push
        show ?thesis by (rule stop [OF r(7) [OF answered True push]]) simp_all
      next
        case tag
        show ?thesis by (rule stop [OF r(8) [OF answered True tag]]) simp_all
      next
        case push_tags
        show ?thesis by (rule stop [OF r(9) [OF answered True push_tags]]) simp_all
      qed
    qed
  qed
  show ?thesis
    using general r(1-3) r(4-9) [of answer rest'] by blast
qed

theorem no_rollback_witness:
  "is_valid_version ''1.3.0'' \<and>
   \<not> all_steps_succeed env_tests_fail (fresh manifest_123 [''1.3.0'', ''y'']) \<and>
   exit_code (fst (main env_tests_fail (fresh manifest_123 [''1.3.0'', ''y'']))) = 1 \<and>
   main env_tests_fail (fresh manifest_123 [''1.3.0'', ''y'']) =
     (Inl CalledProcessError,
      \<lparr>manifest = Some manifest_130, stdin = [''y''],
       trace = [Which ''git'', Which ''cargo'',
                Run [''git'', ''rev-parse'', ''--abbrev-ref'', ''HEAD''],
                Run [''git'', ''diff-index'', ''--quiet'', ''HEAD'', ''--''],
                Read_manifest, Input (version_prompt ''1.2.3''),
                Read_manifest, Write_manifest manifest_130,
                Run [''cargo'', ''check''], Run [''cargo'', ''test'']]\<rparr>) \<and>
   \<not> all_steps_succeed env_ok (fresh manifest_123 [''1.3.0'', ''n'']) \<and>
   main env_ok (fresh manifest_123 [''1.3.0'', ''n'']) =
     (Inl (SystemExit 1),
      \<lparr>manifest = Some manifest_130, stdin = [],
       trace = [Which ''git'', Which ''cargo'',
                Run [''git'', ''rev-parse'', ''--abbrev-ref'', ''HEAD''],
                Run [''git'', ''diff-index'', ''--quiet'', ''HEAD'', ''--''],
                Read_manifest, Input (version_prompt ''1.2.3''),
                Read_manifest, Write_manifest manifest_130,
                Run [''cargo'', ''check''], Run [''cargo'', ''test''],
                Run [''git'', ''status'', ''--porcelain''], Input confirm_prompt]\<rparr>) \<and>
   \<not> all_steps_succeed env_push_fails (fresh manifest_123 [''1.3.0'', ''y'']) \<and>
   main env_push_fails (fresh manifest_123 [''1.3.0'', ''y'']) =
     (Inl (SystemExit 1),
      \<lparr>manifest = Some manifest_130, stdin = [],
       trace = [Which ''git'', Which ''cargo'',
                Run [''git'', ''rev-parse'', ''--abbrev-ref'', ''HEAD''],
                Run [''git'', ''diff-index'', ''--quiet'', ''HEAD'', ''--''],
                Read_manifest, Input (version_prompt ''1.2.3''),
                Read_manifest, Write_manifest manifest_130,
                Run [''cargo'', ''check''], Run [''cargo'', ''test''],
                Run [''git'', ''status'', ''--porcelain''], Input confirm_prompt,
                Run [''git'', ''add'', ''Cargo.*''],
                Run [''git'', ''commit'', ''-m'', '':rocket: Release version 1.3.0''],
                Run [''git'', ''push'']]\<rparr>)"
proof -
  have w: "manifest (fresh manifest_123 lines) = Some manifest_123"
    "stdin (fresh manifest_123 (l # ls)) = l # ls"
    "trace (fresh manifest_123 lines) = []" for lines l ls
    by (simp_all add: fresh_def)
  have ls: "linesep env_tests_fail = [newline]" "linesep env_push_fails = [newline]"
    by (simp_all add: env_tests_fail_def env_push_fails_def env_ok_def)
  have not_y: "lower ''n'' \<noteq> ''y''"
    by (simp add: lower_def lower_char_def)
  have f1: "\<not> all_steps_succeed env_tests_fail (fresh manifest_123 [''1.3.0'', ''y''])"
    by (simp add: all_steps_succeed_def env_tests_fail_steps fresh_def)
  have f2: "\<not> all_steps_succeed env_ok (fresh manifest_123 [''1.3.0'', ''n''])"
    by (simp add: all_steps_succeed_def fresh_def not_y)
  have f3: "\<not> all_steps_succeed env_push_fails (fresh manifest_123 [''1.3.0'', ''y''])"
    by (simp add: all_steps_succeed_def fresh_def publish_succeeds_def env_push_fails_def)
  have c1: "fst (command env_tests_fail [''cargo'', ''check'']) = 0 \<and>
      fst (command env_tests_fail [''cargo'', ''test'']) \<noteq> 0"
    by (simp add: env_tests_fail_def env_ok_def)
  have c3: "fst (command env_push_fails [''git'', ''add'', ''Cargo.*'']) = 0 \<and>
      fst (command env_push_fails [''git'', ''commit'', ''-m'', '':rocket: Release version '' @ ''1.3.0'']) = 0 \<and>
      fst (command env_push_fails [''git'', ''push'']) \<noteq> 0"
    by (simp add: env_push_fails_def env_ok_def)
  note t1 = no_rollback [OF env_tests_fail_steps(1-3) w(1) re_search_manifest_123 w(2)
      is_valid_version_1_3_0 w(3) refl refl refl refl f1,
      unfolded ls re_sub_manifest_123_read write_newlines_newline]
  note t2 = no_rollback [OF env_ok_steps(1-3) w(1) re_search_manifest_123 w(2)
      is_valid_version_1_3_0 w(3) refl refl refl refl f2, of "''n''" "[]",
      unfolded linesep_env_ok re_sub_manifest_123_read write_newlines_newline]
  note t3 = no_rollback [OF env_push_fails_steps(1-3) w(1) re_search_manifest_123 w(2)
      is_valid_version_1_3_0 w(3) refl refl refl refl f3, of "''y''" "[]",
      unfolded ls re_sub_manifest_123_read write_newlines_newline]
  have 1: "exit_code (fst (main env_tests_fail (fresh manifest_123 [''1.3.0'', ''y'']))) = 1"
    by (rule t1 [THEN conjunct1])
  have 2: "main env_tests_fail (fresh manifest_123 [''1.3.0'', ''y'']) =
     (Inl CalledProcessError,
      \<lparr>manifest = Some manifest_130, stdin = [''y''],
       trace = [Which ''git'', Which ''cargo'',
                Run [''git'', ''rev-parse'', ''--abbrev-ref'', ''HEAD''],
                Run [''git'', ''diff-index'', ''--quiet'', ''HEAD'', ''--''],
                Read_manifest, Input (version_prompt ''1.2.3''),
                Read_manifest, Write_manifest manifest_130,
                Run [''cargo'', ''check''], Run [''cargo'', ''test'']]\<rparr>)"
    using t1 [THEN conjunct2, THEN conjunct2, THEN conjunct2, THEN conjunct2, THEN conjunct1,
        rule_format, OF c1]
    by (simp add: fresh_def events_to_write_def events_after_write_def)
  have 3: "main env_ok (fresh manifest_123 [''1.3.0'', ''n'']) =
     (Inl (SystemExit 1),
      \<lparr>manifest = Some manifest_130, stdin = [],
       trace = [Which ''git'', Which ''cargo'',
                Run [''git'', ''rev-parse'', ''--abbrev-ref'', ''HEAD''],
                Run [''git'', ''diff-index'', ''--quiet'', ''HEAD'', ''--''],
                Read_manifest, Input (version_prompt ''1.2.3''),
                Read_manifest, Write_manifest manifest_130,
                Run [''cargo'', ''check''], Run [''cargo'', ''test''],
                Run [''git'', ''status'', ''--porcelain''], Input confirm_prompt]\<rparr>)"
    using t2 [THEN conjunct2, THEN conjunct2, THEN conjunct2, THEN conjunct2, THEN conjunct2,
        THEN conjunct2, THEN conjunct1] env_ok_steps(4) not_y
    by (simp add: fresh_def events_to_write_def events_after_write_def)
  have 4: "main env_push_fails (fresh manifest_123 [''1.3.0'', ''y'']) =
     (Inl (SystemExit 1),
      \<lparr>manifest = Some manifest_130, stdin = [],
       trace = [Which ''git'', Which ''cargo'',
                Run [''git'', ''rev-parse'', ''--abbrev-ref'', ''HEAD''],
                Run [''git'', ''diff-index'', ''--quiet'', ''HEAD'', ''--''],
                Read_manifest, Input (version_prompt ''1.2.3''),
                Read_manifest, Write_manifest manifest_130,
                Run [''cargo'', ''check''], Run [''cargo'', ''test''],
                Run [''git'', ''status'', ''--porcelain''], Input confirm_prompt,
                Run [''git'', ''add'', ''Cargo.*''],
                Run [''git'', ''commit'', ''-m'', '':rocket: Release version 1.3.0''],
                Run [''git'', ''push'']]\<rparr>)"
    using t3 [THEN conjunct2, THEN conjunct2, THEN conjunct2, THEN conjunct2, THEN conjunct2,
        THEN conjunct2, THEN conjunct2] env_push_fails_steps(4) lower_y c3
    by (simp add: fresh_def events_to_write_def events_after_write_def)
  from is_valid_version_1_3_0 f1 1 2 f2 3 f3 4 show ?thesis
    by (intro conjI)
qed

section \<open>Reading and rewriting the version\<close>

lemma universal_newlines_rust_version:
  "universal_newlines rust_version_manifest = rust_version_manifest"
  by (rule universal_newlines_id) (simp add: rust_version_manifest_def CR_def)

lemma universal_newlines_dependency:
  "universal_newlines dependency_manifest = dependency_manifest"
  by (rule universal_newlines_id)
     (simp add: dependency_manifest_def version_line_def dquote_def newline_def CR_def)

lemma re_sub_dependency:
  "re_sub ''1.3.0'' True dependency_manifest
     = ''[package]'' @ [newline] @ version_line ''1.3.0'' @ [newline]
         @ ''[dependencies.serde]'' @ [newline] @ version_line ''1.3.0'' @ [newline]"
  unfolding dependency_manifest_def version_line_def dquote_def newline_def by code_simp

lemma get_current_version_eq:
  assumes "manifest w = Some content"
  shows "get_current_version w =
           (case re_search (universal_newlines content) of
              Some group1 \<Rightarrow> Inr group1
            | None \<Rightarrow> Inl (SystemExit 1),
            w\<lparr>trace := trace w @ [Read_manifest]\<rparr>)"
  using assms by (simp add: get_current_version_def io_defs split: option.split)

lemma update_version_eq:
  assumes "manifest w = Some content"
  shows "update_version e v w =
           (Inr (),
            w\<lparr>manifest := Some (write_newlines (linesep e) (re_sub v True (universal_newlines content))),
              trace := trace w @ [Read_manifest,
                                  Write_manifest (re_sub v True (universal_newlines content))]\<rparr>)"
  using assms by (simp add: update_version_def io_defs)

lemma get_current_version_rust_version:
  "fst (get_current_version (fresh rust_version_manifest [])) = Inr ''1.70.0''"
  by (simp add: get_current_version_eq [of _ rust_version_manifest] fresh_def
      universal_newlines_rust_version re_search_rust_version)

lemma update_version_rust_version:
  "manifest (snd (update_version env_ok ''1.3.0'' (fresh rust_version_manifest [])))
     = Some (''rust-version = '' @ [dquote] @ ''1.70.0'' @ [dquote, newline]
             @ version_line ''1.3.0'' @ [newline])"
proof -
  have "manifest (snd (update_version env_ok ''1.3.0'' (fresh rust_version_manifest [])))
      = Some (re_sub ''1.3.0'' True rust_version_manifest)"
    by (simp add: update_version_eq [of _ rust_version_manifest] fresh_def linesep_env_ok
        universal_newlines_rust_version write_newlines_newline)
  then show ?thesis
    unfolding re_sub_rust_version by (simp add: version_line_def dquote_def newline_def)
qed

lemma get_current_version_after_update:
  "fst (seq (update_version env_ok ''1.3.0'') (\<lambda>_. get_current_version)
          (fresh rust_version_manifest []))
     = Inr ''1.70.0''"
proof -
  have u: "universal_newlines (re_sub ''1.3.0'' True rust_version_manifest)
      = re_sub ''1.3.0'' True rust_version_manifest"
    unfolding re_sub_rust_version by (rule universal_newlines_id) (simp add: CR_def)
  show ?thesis
    by (simp add: seq_def update_version_eq [of _ rust_version_manifest] fresh_def
        linesep_env_ok universal_newlines_rust_version write_newlines_newline
        get_current_version_eq [of _ "re_sub ''1.3.0'' True rust_version_manifest"]
        u re_search_after_sub)
qed

lemma update_version_dependency:
  "manifest (snd (update_version env_ok ''1.3.0'' (fresh dependency_manifest [])))
     = Some (''[package]'' @ [newline] @ version_line ''1.3.0'' @ [newline]
             @ ''[dependencies.serde]'' @ [newline] @ version_line ''1.3.0'' @ [newline])"
  by (simp add: update_version_eq [of _ dependency_manifest] fresh_def linesep_env_ok
      universal_newlines_dependency re_sub_dependency write_newlines_newline)

text \<open>The line ends of the manifest are those of the platform after an update, whatever they
  were before it.\<close>

lemma update_version_line_ends:
  "manifest (snd (update_version env_ok ''1.3.0'' (fresh (version_line ''1.2.3'' @ [CR, newline]) [])))
     = Some (version_line ''1.3.0'' @ [newline])"
  "manifest (snd (update_version env_crlf ''1.3.0'' (fresh (version_line ''1.2.3'' @ [newline]) [])))
     = Some (version_line ''1.3.0'' @ [CR, newline])"
proof -
  have u: "universal_newlines (version_line ''1.2.3'' @ [CR, newline]) = version_line ''1.2.3'' @ [newline]"
    "universal_newlines (version_line ''1.2.3'' @ [newline]) = version_line ''1.2.3'' @ [newline]"
    unfolding version_line_def dquote_def newline_def CR_def by code_simp+
  have s: "re_sub ''1.3.0'' True (version_line ''1.2.3'' @ [newline]) = version_line ''1.3.0'' @ [newline]"
    unfolding version_line_def dquote_def newline_def by code_simp
  have w: "write_newlines [CR, newline] (version_line ''1.3.0'' @ [newline])
      = version_line ''1.3.0'' @ [CR, newline]"
    unfolding version_line_def dquote_def newline_def CR_def by code_simp
  show "manifest (snd (update_version env_ok ''1.3.0'' (fresh (version_line ''1.2.3'' @ [CR, newline]) [])))
     = Some (version_line ''1.3.0'' @ [newline])"
    by (simp add: update_version_eq [of _ "version_line ''1.2.3'' @ [CR, newline]"] fresh_def
        linesep_env_ok u s write_newlines_newline)
  show "manifest (snd (update_version env_crlf ''1.3.0'' (fresh (version_line ''1.2.3'' @ [newline]) [])))
     = Some (version_line ''1.3.0'' @ [CR, newline])"
    by (simp add: update_version_eq [of _ "version_line ''1.2.3'' @ [newline]"] fresh_def
        env_crlf_def u s w)
qed

text \<open>
  Claim C9. \<^verbatim>\<open>get_current_version\<close> returns the triple of the first match in the text it
  reads from the manifest: the match at the least position at which the pattern matches,
  wherever in a line that is. \<^verbatim>\<open>update_version\<close> rewrites every occurrence that begins a
  line of that text: whatever stands before and after it, the occurrence keeps its
  assignment and gets the new version (one without a backslash) between its quotes, and
  the text so made is what is written to the manifest. So in the manifest with
  \<^verbatim>\<open>rust-version\<close> before \<^verbatim>\<open>version\<close> the version read is 1.70.0, from the middle of the
  first line, the update rewrites the second line, and the version read after the update is
  still 1.70.0; and in the manifest with the version of a dependency the update rewrites
  both lines.
\<close>

theorem search_first_substitute_every:
  assumes "backslash \<notin> set v" and "manifest w = Some content"
  shows "(fst (get_current_version w) = Inr t \<longleftrightarrow>
      (\<exists>i\<le>length (universal_newlines content).
         matches (drop i (universal_newlines content)) t \<and>
         (\<forall>j<i. \<forall>t'. \<not> matches (drop j (universal_newlines content)) t'))) \<and>
   snd (get_current_version w) = w\<lparr>trace := trace w @ [Read_manifest]\<rparr> \<and>
   (\<forall>pre ws1 ws2 a b c post.
      universal_newlines content = pre @ occurrence ws1 ws2 a b c @ post \<and>
      (pre = [] \<or> last pre = newline) \<and> blank ws1 \<and> blank ws2 \<and>
      number a \<and> number b \<and> number c \<longrightarrow>
      update_version e v w =
        (Inr (),
         w\<lparr>manifest := Some (write_newlines (linesep e)
              (re_sub v True pre @ assignment ws1 ws2 @ [dquote] @ v @ [dquote]
                 @ re_sub v False post)),
           trace := trace w @
             [Read_manifest,
              Write_manifest (re_sub v True pre @ assignment ws1 ws2 @ [dquote] @ v @ [dquote]
                 @ re_sub v False post)]\<rparr>)) \<and>
   fst (get_current_version (fresh rust_version_manifest [])) = Inr ''1.70.0'' \<and>
   manifest (snd (update_version env_ok ''1.3.0'' (fresh rust_version_manifest [])))
     = Some (''rust-version = '' @ [dquote] @ ''1.70.0'' @ [dquote, newline]
             @ version_line ''1.3.0'' @ [newline]) \<and>
   fst (seq (update_version env_ok ''1.3.0'') (\<lambda>_. get_current_version)
          (fresh rust_version_manifest []))
     = Inr ''1.70.0'' \<and>
   manifest (snd (update_version env_ok ''1.3.0'' (fresh dependency_manifest [])))
     = Some (''[package]'' @ [newline] @ version_line ''1.3.0'' @ [newline]
             @ ''[dependencies.serde]'' @ [newline] @ version_line ''1.3.0'' @ [newline])"
proof -
  let ?m = "universal_newlines content"
  have "re_search ?m = Some t \<longleftrightarrow>
      (\<exists>i\<le>length ?m. matches (drop i ?m) t \<and> (\<forall>j<i. \<forall>t'. \<not> matches (drop j ?m) t'))"
    unfolding re_search_Some_iff no_match_iff [symmetric] matches_iff [symmetric] ..
  moreover have "fst (get_current_version w) = Inr t \<longleftrightarrow> re_search ?m = Some t"
    unfolding get_current_version_eq [OF assms(2)] by (simp split: option.split)
  ultimately have 1: "fst (get_current_version w) = Inr t \<longleftrightarrow>
      (\<exists>i\<le>length ?m. matches (drop i ?m) t \<and> (\<forall>j<i. \<forall>t'. \<not> matches (drop j ?m) t'))"
    by simp
  have 2: "snd (get_current_version w) = w\<lparr>trace := trace w @ [Read_manifest]\<rparr>"
    unfolding get_current_version_eq [OF assms(2)] by simp
  have 3: "\<forall>pre ws1 ws2 a b c post.
      ?m = pre @ occurrence ws1 ws2 a b c @ post \<and>
      (pre = [] \<or> last pre = newline) \<and> blank ws1 \<and> blank ws2 \<and>
      number a \<and> number b \<and> number c \<longrightarrow>
      update_version e v w =
        (Inr (),
         w\<lparr>manifest := Some (write_newlines (linesep e)
              (re_sub v True pre @ assignment ws1 ws2 @ [dquote] @ v @ [dquote]
                 @ re_sub v False post)),
           trace := trace w @
             [Read_manifest,
              Write_manifest (re_sub v True pre @ assignment ws1 ws2 @ [dquote] @ v @ [dquote]
                 @ re_sub v False post)]\<rparr>)"
  proof (intro allI impI)
    fix pre ws1 ws2 a b c post
    assume a: "?m = pre @ occurrence ws1 ws2 a b c @ post \<and>
      (pre = [] \<or> last pre = newline) \<and> blank ws1 \<and> blank ws2 \<and>
      number a \<and> number b \<and> number c"
    then have "re_sub v True ?m
        = re_sub v True pre @ assignment ws1 ws2 @ [dquote] @ v @ [dquote] @ re_sub v False post"
      using re_sub_occurrence [of pre ws1 ws2 a b c v post] by simp
    then show "update_version e v w =
        (Inr (),
         w\<lparr>manifest := Some (write_newlines (linesep e)
              (re_sub v True pre @ assignment ws1 ws2 @ [dquote] @ v @ [dquote]
                 @ re_sub v False post)),
           trace := trace w @
             [Read_manifest,
              Write_manifest (re_sub v True pre @ assignment ws1 ws2 @ [dquote] @ v @ [dquote]
                 @ re_sub v False post)]\<rparr>)"
      unfolding update_version_eq [OF assms(2)] by simp
  qed
  from 1 2 3 get_current_version_rust_version update_version_rust_version
    get_current_version_after_update update_version_dependency
  show ?thesis
    by (intro conjI)
qed

theorem search_first_substitute_every_witness:
  "backslash \<notin> set ''1.3.0'' \<and>
   manifest (fresh rust_version_manifest []) = Some rust_version_manifest \<and>
   universal_newlines rust_version_manifest
     = (''rust-version = '' @ [dquote] @ ''1.70.0'' @ [dquote, newline])
         @ occurrence '' '' '' '' ''1'' ''2'' ''3'' @ [newline] \<and>
   fst (get_current_version (fresh rust_version_manifest [])) = Inr ''1.70.0'' \<and>
   (\<exists>i\<le>length (universal_newlines rust_version_manifest).
      matches (drop i (universal_newlines rust_version_manifest)) ''1.70.0'' \<and>
      (\<forall>j<i. \<forall>t'. \<not> matches (drop j (universal_newlines rust_version_manifest)) t')) \<and>
   last (''rust-version = '' @ [dquote] @ ''1.70.0'' @ [dquote, newline]) = newline \<and>
   blank '' '' \<and> number ''1'' \<and> number ''2'' \<and> number ''3'' \<and>
   update_version env_ok ''1.3.0'' (fresh rust_version_manifest []) =
     (Inr (),
      \<lparr>manifest = Some (''rust-version = '' @ [dquote] @ ''1.70.0'' @ [dquote, newline]
                        @ version_line ''1.3.0'' @ [newline]),
       stdin = [],
       trace = [Read_manifest,
                Write_manifest (''rust-version = '' @ [dquote] @ ''1.70.0'' @ [dquote, newline]
                                @ version_line ''1.3.0'' @ [newline])]\<rparr>)"
proof -
  let ?pre = "''rust-version = '' @ [dquote] @ ''1.70.0'' @ [dquote, newline]"
  have v: "backslash \<notin> set ''1.3.0''"
    by (simp add: backslash_def)
  have m: "manifest (fresh rust_version_manifest []) = Some rust_version_manifest"
    by (simp add: fresh_def)
  have u: "universal_newlines rust_version_manifest
      = ?pre @ occurrence '' '' '' '' ''1'' ''2'' ''3'' @ [newline]"
    unfolding universal_newlines_rust_version
    by (simp add: rust_version_manifest_def occurrence_def assignment_def dotted_def dquote_def
        newline_def)
  note t = search_first_substitute_every [OF v m, of "''1.70.0''" env_ok]
  have g: "fst (get_current_version (fresh rust_version_manifest [])) = Inr ''1.70.0''"
    by (rule t [THEN conjunct2, THEN conjunct2, THEN conjunct2, THEN conjunct1])
  with t have 1: "\<exists>i\<le>length (universal_newlines rust_version_manifest).
      matches (drop i (universal_newlines rust_version_manifest)) ''1.70.0'' \<and>
      (\<forall>j<i. \<forall>t'. \<not> matches (drop j (universal_newlines rust_version_manifest)) t')"
    by blast
  have h: "last ?pre = newline"
    "blank '' ''" "number ''1''" "number ''2''" "number ''3''"
    by (simp_all add: blank_def number_def is_space_def is_digit_def)
  have s: "re_sub ''1.3.0'' True ?pre = ?pre" "re_sub ''1.3.0'' False [newline] = [newline]"
    unfolding dquote_def newline_def by code_simp+
  from t [THEN conjunct2, THEN conjunct2, THEN conjunct1, rule_format,
      of ?pre "'' ''" "'' ''" "''1''" "''2''" "''3''" "[newline]"] u h
  have "update_version env_ok ''1.3.0'' (fresh rust_version_manifest []) =
        (Inr (),
         (fresh rust_version_manifest [])\<lparr>manifest := Some (write_newlines (linesep env_ok)
              (re_sub ''1.3.0'' True ?pre @ assignment '' '' '' '' @ [dquote] @ ''1.3.0'' @ [dquote]
                 @ re_sub ''1.3.0'' False [newline])),
           trace := trace (fresh rust_version_manifest []) @
             [Read_manifest,
              Write_manifest (re_sub ''1.3.0'' True ?pre @ assignment '' '' '' '' @ [dquote] @ ''1.3.0'' @ [dquote]
                 @ re_sub ''1.3.0'' False [newline])]\<rparr>)"
    by blast
  then have "update_version env_ok ''1.3.0'' (fresh rust_version_manifest []) =
     (Inr (),
      \<lparr>manifest = Some (?pre @ version_line ''1.3.0'' @ [newline]),
       stdin = [],
       trace = [Read_manifest, Write_manifest (?pre @ version_line ''1.3.0'' @ [newline])]\<rparr>)"
    unfolding s linesep_env_ok write_newlines_newline
    by (simp add: fresh_def version_line_def assignment_def)
  then have 2: "update_version env_ok ''1.3.0'' (fresh rust_version_manifest []) =
     (Inr (),
      \<lparr>manifest = Some (''rust-version = '' @ [dquote] @ ''1.70.0'' @ [dquote, newline]
                        @ version_line ''1.3.0'' @ [newline]),
       stdin = [],
       trace = [Read_manifest,
                Write_manifest (''rust-version = '' @ [dquote] @ ''1.70.0'' @ [dquote, newline]
                                @ version_line ''1.3.0'' @ [newline])]\<rparr>)"
    by (simp only: append_assoc)
  from v m u g 1 h 2 show ?thesis
    by (intro conjI)
qed

text \<open>
  Claim C1 at the manifest with \<^verbatim>\<open>rust-version = "1.70.0"\<close> before the line
  \<^verbatim>\<open>version = "1.2.3"\<close>: the version read is 1.70.0, not the 1.2.3 of that line; an update
  to the valid version 1.3.0 makes the line \<^verbatim>\<open>version = "1.3.0"\<close>, and the version read
  after it is still 1.70.0. And at the manifest with the version of a dependency after that
  of the package: the update puts 1.3.0 in place of the version of the dependency as well.
\<close>

theorem version_round_trip_fails:
  "manifest (fresh rust_version_manifest [])
     = Some (''rust-version = '' @ [dquote] @ ''1.70.0'' @ [dquote, newline]
             @ version_line ''1.2.3'' @ [newline]) \<and>
   fst (get_current_version (fresh rust_version_manifest [])) = Inr ''1.70.0'' \<and>
   is_valid_version ''1.3.0'' \<and>
   manifest (snd (update_version env_ok ''1.3.0'' (fresh rust_version_manifest [])))
     = Some (''rust-version = '' @ [dquote] @ ''1.70.0'' @ [dquote, newline]
             @ version_line ''1.3.0'' @ [newline]) \<and>
   fst (seq (update_version env_ok ''1.3.0'') (\<lambda>_. get_current_version)
          (fresh rust_version_manifest []))
     = Inr ''1.70.0'' \<and>
   manifest (fresh dependency_manifest [])
     = Some (''[package]'' @ [newline] @ version_line ''1.2.3'' @ [newline]
             @ ''[dependencies.serde]'' @ [newline] @ version_line ''1.0.200'' @ [newline]) \<and>
   manifest (snd (update_version env_ok ''1.3.0'' (fresh dependency_manifest [])))
     = Some (''[package]'' @ [newline] @ version_line ''1.3.0'' @ [newline]
             @ ''[dependencies.serde]'' @ [newline] @ version_line ''1.3.0'' @ [newline])"
proof -
  have 1: "manifest (fresh rust_version_manifest [])
     = Some (''rust-version = '' @ [dquote] @ ''1.70.0'' @ [dquote, newline]
             @ version_line ''1.2.3'' @ [newline])"
    by (simp add: fresh_def rust_version_manifest_def version_line_def dquote_def newline_def)
  have 2: "manifest (fresh dependency_manifest [])
     = Some (''[package]'' @ [newline] @ version_line ''1.2.3'' @ [newline]
             @ ''[dependencies.serde]'' @ [newline] @ version_line ''1.0.200'' @ [newline])"
    by (simp add: fresh_def dependency_manifest_def version_line_def dquote_def newline_def)
  from 1 get_current_version_rust_version is_valid_version_1_3_0 update_version_rust_version
    get_current_version_after_update 2 update_version_dependency
  show ?thesis
    by (intro conjI)
qed

section \<open>Properties of the centring\<close>

text \<open>A text at which no match that began earlier can go on or end, and at whose first
  character none begins after a lone escape character.\<close>

definition inert :: "str \<Rightarrow> bool" where
  "inert t \<longleftrightarrow>
     (t = [] \<or> (\<not> csi_param (hd t) \<and> \<not> csi_intro (hd t))) \<and>
     (case dropWhile csi_inter t of [] \<Rightarrow> True | f # _ \<Rightarrow> \<not> csi_final f)"

lemma inert_spaces: "inert (replicate n SPACE)"
proof -
  have "dropWhile csi_inter (replicate n SPACE) = []"
    by (simp add: csi_inter_def SPACE_def)
  then show ?thesis
    by (cases n) (simp_all add: inert_def csi_param_def csi_intro_def SPACE_def)
qed

lemma inert_ESCAPE: "inert (ESCAPE # x)"
  by (simp add: inert_def csi_param_def csi_intro_def csi_inter_def csi_final_def ESCAPE_def)

lemma csi_final_disjoint: "csi_final c \<Longrightarrow> \<not> csi_inter c \<and> \<not> csi_param c"
  by (auto simp: csi_final_def csi_inter_def csi_param_def)

lemma ansi_rest_all_param:
  assumes "\<forall>x\<in>set r. csi_param x"
  shows "ansi_rest r = None"
proof -
  from assms have "dropWhile csi_param r = []" by simp
  then show ?thesis unfolding ansi_rest_def by (simp only: dropWhile.simps list.case)
qed

lemma ansi_rest_all_inter:
  assumes "\<forall>x\<in>set (dropWhile csi_param r). csi_inter x"
  shows "ansi_rest r = None"
proof -
  from assms have "dropWhile csi_inter (dropWhile csi_param r) = []" by simp
  then show ?thesis unfolding ansi_rest_def by (simp only: list.case)
qed

lemma ansi_rest_inert:
  assumes "inert t"
  shows "ansi_rest (r @ t) = map_option (\<lambda>x. x @ t) (ansi_rest r)"
proof -
  from assms have p: "dropWhile csi_param t = t"
    by (cases t) (auto simp: inert_def)
  from assms have i: "case dropWhile csi_inter t of [] \<Rightarrow> True | f # _ \<Rightarrow> \<not> csi_final f"
    by (simp add: inert_def)
  then have stuck: "(case dropWhile csi_inter t of [] \<Rightarrow> None
                     | f # r' \<Rightarrow> if csi_final f then Some r' else None) = None"
    by (cases "dropWhile csi_inter t") (simp_all only: list.case if_False)
  let ?r1 = "dropWhile csi_param r"
  show ?thesis
  proof (cases "\<forall>x\<in>set r. csi_param x")
    case True
    then have "dropWhile csi_param (r @ t) = t"
      using p by (simp add: dropWhile_append)
    then have "ansi_rest (r @ t) = None"
      unfolding ansi_rest_def using stuck by simp
    with ansi_rest_all_param [OF True] show ?thesis by simp
  next
    case False
    then obtain x where "x \<in> set r" "\<not> csi_param x" by blast
    then have 1: "dropWhile csi_param (r @ t) = ?r1 @ t"
      by (rule dropWhile_append1)
    show ?thesis
    proof (cases "\<forall>x\<in>set ?r1. csi_inter x")
      case True
      then have "dropWhile csi_inter (?r1 @ t) = dropWhile csi_inter t"
        by (simp add: dropWhile_append)
      then have "ansi_rest (r @ t) = None"
        unfolding ansi_rest_def 1 using stuck by simp
      with ansi_rest_all_inter [OF True] show ?thesis by simp
    next
      case False
      then obtain y where "y \<in> set ?r1" "\<not> csi_inter y" by blast
      then have 2: "dropWhile csi_inter (?r1 @ t) = dropWhile csi_inter ?r1 @ t"
        by (rule dropWhile_append1)
      from False obtain f r' where 3: "dropWhile csi_inter ?r1 = f # r'"
        by (cases "dropWhile csi_inter ?r1") auto
      show ?thesis
        unfolding ansi_rest_def 1 2 3 by simp
    qed
  qed
qed

lemma ansi_at_inert:
  assumes "inert t" "s \<noteq> []"
  shows "ansi_at (s @ t) = map_option (\<lambda>x. x @ t) (ansi_at s)"
proof (cases s)
  case Nil
  with assms(2) show ?thesis by simp
next
  case (Cons e s')
  show ?thesis
  proof (cases s')
    case Nil
    with Cons assms(1) show ?thesis
      by (cases t) (auto simp: ansi_at_def inert_def)
  next
    case (Cons c r)
    with \<open>s = e # s'\<close> ansi_rest_inert [OF assms(1), of r] show ?thesis
      by (simp add: ansi_at_def)
  qed
qed

lemma strip_ansi_Nil: "strip_ansi [] = []"
  by (simp add: strip_ansi.simps [of "[]"] ansi_at_def)

lemma strip_ansi_match: "ansi_at s = Some r \<Longrightarrow> strip_ansi s = strip_ansi r"
  by (subst strip_ansi.simps) simp

lemma strip_ansi_step: "ansi_at (c # cs) = None \<Longrightarrow> strip_ansi (c # cs) = c # strip_ansi cs"
  by (subst strip_ansi.simps) simp

lemma strip_ansi_inert:
  assumes "inert t"
  shows "strip_ansi (s @ t) = strip_ansi s @ strip_ansi t"
proof (induction s rule: strip_ansi.induct)
  case (1 s)
  show ?case
  proof (cases s)
    case Nil
    then show ?thesis by (simp add: strip_ansi_Nil)
  next
    case (Cons c cs)
    then have ne: "s \<noteq> []" by simp
    show ?thesis
    proof (cases "ansi_at s")
      case None
      with ansi_at_inert [OF assms ne] have "ansi_at (c # (cs @ t)) = None"
        using Cons by simp
      then have "strip_ansi (c # (cs @ t)) = c # strip_ansi (cs @ t)"
        by (rule strip_ansi_step)
      moreover have "strip_ansi (c # cs) = c # strip_ansi cs"
        using None Cons by (intro strip_ansi_step) simp
      ultimately show ?thesis
        using "1.IH"(1) [OF None Cons] Cons by simp
    next
      case (Some r)
      with ansi_at_inert [OF assms ne] have "ansi_at (s @ t) = Some (r @ t)"
        by simp
      then have "strip_ansi (s @ t) = strip_ansi (r @ t)"
        by (rule strip_ansi_match)
      with "1.IH"(2) [OF Some] strip_ansi_match [OF Some] show ?thesis
        by simp
    qed
  qed
qed

lemma strip_ansi_spaces: "strip_ansi (replicate n SPACE @ s) = replicate n SPACE @ strip_ansi s"
proof (induction n)
  case 0
  show ?case by simp
next
  case (Suc n)
  have "ansi_at (SPACE # (replicate n SPACE @ s)) = None"
    by (simp add: ansi_at_def ESCAPE_def SPACE_def split: list.splits)
  from strip_ansi_step [OF this] Suc show ?case by simp
qed

lemma strip_ansi_padded:
  "strip_ansi (replicate n SPACE @ s @ replicate m SPACE)
     = replicate n SPACE @ strip_ansi s @ replicate m SPACE"
  using strip_ansi_spaces [of n "s @ replicate m SPACE"]
    strip_ansi_inert [OF inert_spaces, of s m] strip_ansi_spaces [of m "[]"]
  by (simp add: strip_ansi_Nil)

lemma ansi_at_whole:
  assumes "ansi_at e = Some []"
  shows "ansi_at (e @ b) = Some b"
proof -
  from assms obtain c r where e: "e = ESCAPE # c # r" "csi_intro c" and r: "ansi_rest r = Some []"
    by (auto simp: ansi_at_def split: list.splits if_splits)
  let ?r1 = "dropWhile csi_param r"
  from r have f: "dropWhile csi_inter ?r1 = [hd (dropWhile csi_inter ?r1)]"
    "csi_final (hd (dropWhile csi_inter ?r1))"
    by (auto simp: ansi_rest_def split: list.splits if_splits)
  let ?f = "hd (dropWhile csi_inter ?r1)"
  have "?f \<in> set (dropWhile csi_inter ?r1)"
    by (subst f(1)) simp
  then have in1: "?f \<in> set ?r1" and in0: "?f \<in> set r"
    by (auto dest: set_dropWhileD)
  have ni: "\<not> csi_inter ?f" and np: "\<not> csi_param ?f"
    using csi_final_disjoint [OF f(2)] by simp_all
  have 1: "dropWhile csi_param (r @ b) = ?r1 @ b"
    using in0 np by (rule dropWhile_append1)
  have 2: "dropWhile csi_inter (?r1 @ b) = dropWhile csi_inter ?r1 @ b"
    using in1 ni by (rule dropWhile_append1)
  have "ansi_rest (r @ b) = Some b"
    unfolding ansi_rest_def 1 2 by (subst f(1)) (simp add: f(2))
  with e show ?thesis
    by (simp add: ansi_at_def)
qed

lemma strip_ansi_embedded:
  assumes "ansi_at e = Some []"
  shows "strip_ansi (a @ e @ b) = strip_ansi a @ strip_ansi b"
proof -
  from assms obtain x where e: "e = ESCAPE # x"
    by (auto simp: ansi_at_def split: list.splits if_splits)
  have "strip_ansi (a @ (e @ b)) = strip_ansi a @ strip_ansi (e @ b)"
    unfolding e using inert_ESCAPE [of "x @ b"] by (simp add: strip_ansi_inert)
  also have "strip_ansi (e @ b) = strip_ansi b"
    by (rule strip_ansi_match [OF ansi_at_whole [OF assms]])
  finally show ?thesis by simp
qed

text \<open>Without a joiner the measure is the sum of the widths, or -1.\<close>

lemma wcswidth_from_eq:
  assumes "ZWJ \<notin> set s"
  shows "wcswidth_from w acc s =
     (if \<exists>c\<in>set s. w c < 0 then - 1 else acc + sum_list (map w s))"
  using assms by (induction w acc s rule: wcswidth_from.induct) auto

lemma wcswidth_of_nonneg_iff:
  assumes "ZWJ \<notin> set s"
  shows "0 \<le> wcswidth_of w s \<longleftrightarrow> (\<forall>c\<in>set s. 0 \<le> w c)"
proof -
  have "0 \<le> sum_list (map w s)" if "\<forall>c\<in>set s. 0 \<le> w c"
    using that by (induction s) auto
  moreover have "(\<exists>c\<in>set s. w c < 0) \<longleftrightarrow> \<not> (\<forall>c\<in>set s. 0 \<le> w c)"
    by (simp add: not_le)
  ultimately show ?thesis
    by (simp add: wcswidth_of_def wcswidth_from_eq [OF assms])
qed

lemma wcswidth_of_padded:
  assumes "w SPACE = 1" "ZWJ \<notin> set s" "0 \<le> wcswidth_of w s"
  shows "wcswidth_of w (replicate n SPACE @ s @ replicate m SPACE)
           = int n + wcswidth_of w s + int m"
proof -
  let ?p = "replicate n SPACE @ s @ replicate m SPACE"
  have z: "ZWJ \<notin> set ?p"
    using assms(2) by (auto simp: ZWJ_def SPACE_def)
  from assms(2,3) have "\<forall>c\<in>set s. 0 \<le> w c"
    by (simp add: wcswidth_of_nonneg_iff)
  then have "\<not> (\<exists>c\<in>set ?p. w c < 0)" "\<not> (\<exists>c\<in>set s. w c < 0)"
    using assms(1) by (auto simp: not_less)
  then show ?thesis
    using assms(1)
    by (simp add: wcswidth_of_def wcswidth_from_eq [OF z] wcswidth_from_eq [OF assms(2)]
        sum_list_replicate)
qed

lemma center_text_eq:
  "center_text wcswidth text T =
     spaces ((T - wcswidth (strip_ansi text)) div 2) @ text
       @ spaces (T - (T - wcswidth (strip_ansi text)) div 2 - wcswidth (strip_ansi text))"
  by (simp add: center_text_def Let_def)

lemma replicate_numeral: "replicate (numeral k) x = x # replicate (pred_numeral k) x"
  by (simp add: numeral_eq_Suc)

lemmas centre_eval =
  replicate_numeral center_text_eq spaces_def wcswidth_of_def wcwidth_latin1_def
  strip_ansi.simps ansi_at_def ansi_rest_def csi_intro_def csi_param_def csi_inter_def
  csi_final_def ESCAPE_def SPACE_def ZWJ_def BEL_def

text \<open>The code points of the texts of the examples.\<close>

lemma codes_gold:
  "codes (ESC # ''[38;2;255;215;0mabc'' @ ESC # ''[0m'')
     = [0x1B, 0x5B, 0x33, 0x38, 0x3B, 0x32, 0x3B, 0x32, 0x35, 0x35, 0x3B, 0x32, 0x31, 0x35,
        0x3B, 0x30, 0x6D, 0x61, 0x62, 0x63, 0x1B, 0x5B, 0x30, 0x6D]"
  by (simp add: codes_def ESC_def)

lemma codes_abc: "codes ''abc'' = [0x61, 0x62, 0x63]"
  by (simp add: codes_def)

lemma codes_a: "codes ''a'' = [0x61]"
  by (simp add: codes_def)

lemma codes_spaces: "codes ''  '' = [0x20, 0x20]"
  by (simp add: codes_def)

lemma codes_reset: "codes (ESC # ''[0m'') = [0x1B, 0x5B, 0x30, 0x6D]"
  by (simp add: codes_def ESC_def)

lemma strip_ansi_gold:
  "strip_ansi (codes (ESC # ''[38;2;255;215;0mabc'' @ ESC # ''[0m'')) = codes ''abc''"
  unfolding codes_gold codes_abc by (simp add: centre_eval)

text \<open>
  Claim C5, as the code has it. Let \<open>W\<close> be the display width of the text without its
  escape sequences, \<open>T\<close> the target width, \<open>L = (T - W) div 2\<close> and \<open>R = T - L - W\<close>,
  whatever the measure \<^verbatim>\<open>wcswidth\<close> is.
  When \<open>W \<le> T\<close>, \<^verbatim>\<open>center_text\<close> returns the text with \<open>L\<close> spaces before it and \<open>R\<close>
  spaces after it, which are \<open>T - W\<close> spaces in all; and when the measure of the text
  without its escape sequences between \<open>L\<close> and \<open>R\<close> spaces is \<open>L + W + R\<close>, the display
  width of the result, again without its escape sequences, is \<open>T\<close>.
  The measure of the library adds up in that way, and so the width of the result is \<open>T\<close>,
  when the characters of the text without its escape sequences are below the code point
  256 and none of them is without a width (\<open>0 \<le> W\<close>: no control character).
  When \<open>T \<le> W\<close>, \<^verbatim>\<open>center_text\<close> returns the text as it is, of width \<open>W\<close>.
  An escape sequence anywhere in a text is removed without a trace: what is left is what is
  left of the two sides, so the sequence adds nothing to the width.
\<close>

theorem center_text_centres:
  assumes "W = wcswidth (strip_ansi text)"
    and "L = (T - W) div 2" and "R = T - L - W"
  shows "(W \<le> T \<longrightarrow>
            0 \<le> L \<and> 0 \<le> R \<and> L + R = T - W \<and>
            center_text wcswidth text T = replicate (nat L) SPACE @ text @ replicate (nat R) SPACE \<and>
            (wcswidth (replicate (nat L) SPACE @ strip_ansi text @ replicate (nat R) SPACE)
               = L + W + R \<longrightarrow>
             wcswidth (strip_ansi (center_text wcswidth text T)) = T)) \<and>
         (W \<le> T \<and> wcswidth = wcswidth_of wcwidth_latin1 \<and> 0 \<le> W \<and>
          (\<forall>c\<in>set (strip_ansi text). c < 256) \<longrightarrow>
            wcswidth (strip_ansi (center_text wcswidth text T)) = T) \<and>
         (T \<le> W \<longrightarrow>
            center_text wcswidth text T = text \<and>
            wcswidth (strip_ansi (center_text wcswidth text T)) = W) \<and>
         (\<forall>a e b. ansi_at e = Some [] \<longrightarrow> strip_ansi (a @ e @ b) = strip_ansi a @ strip_ansi b)"
proof -
  have ct: "center_text wcswidth text T = replicate (nat L) SPACE @ text @ replicate (nat R) SPACE"
    unfolding center_text_eq assms(1) [symmetric] assms(2) [symmetric] assms(3) [symmetric]
    by (simp add: spaces_def)
  have stripped: "strip_ansi (center_text wcswidth text T)
      = replicate (nat L) SPACE @ strip_ansi text @ replicate (nat R) SPACE"
    unfolding ct by (rule strip_ansi_padded)
  have bounds: "0 \<le> L \<and> 0 \<le> R \<and> L + R = T - W" if "W \<le> T"
    using that assms(2,3) by simp
  have sum: "wcswidth (strip_ansi (center_text wcswidth text T)) = T"
    if "W \<le> T"
      and "wcswidth (replicate (nat L) SPACE @ strip_ansi text @ replicate (nat R) SPACE) = L + W + R"
    using that bounds [OF that(1)] unfolding stripped by simp
  have 1: "W \<le> T \<longrightarrow>
            0 \<le> L \<and> 0 \<le> R \<and> L + R = T - W \<and>
            center_text wcswidth text T = replicate (nat L) SPACE @ text @ replicate (nat R) SPACE \<and>
            (wcswidth (replicate (nat L) SPACE @ strip_ansi text @ replicate (nat R) SPACE)
               = L + W + R \<longrightarrow>
             wcswidth (strip_ansi (center_text wcswidth text T)) = T)"
    using bounds ct sum by blast
  have 2: "W \<le> T \<and> wcswidth = wcswidth_of wcwidth_latin1 \<and> 0 \<le> W \<and>
          (\<forall>c\<in>set (strip_ansi text). c < 256) \<longrightarrow>
            wcswidth (strip_ansi (center_text wcswidth text T)) = T"
  proof
    assume a: "W \<le> T \<and> wcswidth = wcswidth_of wcwidth_latin1 \<and> 0 \<le> W \<and>
          (\<forall>c\<in>set (strip_ansi text). c < 256)"
    then have eq: "wcswidth = wcswidth_of wcwidth_latin1" by blast
    from a have z: "ZWJ \<notin> set (strip_ansi text)"
      by (auto simp: ZWJ_def)
    have sp: "wcwidth_latin1 SPACE = 1"
      by (simp add: wcwidth_latin1_def SPACE_def)
    from a assms(1) have "0 \<le> wcswidth_of wcwidth_latin1 (strip_ansi text)"
      unfolding eq by simp
    with sp z
    have "wcswidth_of wcwidth_latin1 (replicate (nat L) SPACE @ strip_ansi text @ replicate (nat R) SPACE)
        = int (nat L) + wcswidth_of wcwidth_latin1 (strip_ansi text) + int (nat R)"
      by (intro wcswidth_of_padded)
    with a bounds assms(1)
    have "wcswidth (replicate (nat L) SPACE @ strip_ansi text @ replicate (nat R) SPACE) = L + W + R"
      unfolding eq by simp
    with a sum show "wcswidth (strip_ansi (center_text wcswidth text T)) = T"
      by blast
  qed
  have 3: "T \<le> W \<longrightarrow>
            center_text wcswidth text T = text \<and>
            wcswidth (strip_ansi (center_text wcswidth text T)) = W"
  proof
    assume "T \<le> W"
    then have "nat L = 0" "nat R = 0"
      using assms(2,3) by simp_all
    with ct have "center_text wcswidth text T = text" by simp
    with assms(1) show "center_text wcswidth text T = text \<and>
            wcswidth (strip_ansi (center_text wcswidth text T)) = W"
      by simp
  qed
  have 4: "\<forall>a e b. ansi_at e = Some [] \<longrightarrow> strip_ansi (a @ e @ b) = strip_ansi a @ strip_ansi b"
    by (simp add: strip_ansi_embedded)
  from 1 2 3 4 show ?thesis
    by (intro conjI)
qed

theorem center_text_centres_witness:
  "wcswidth_of wcwidth_latin1 (strip_ansi (codes (ESC # ''[38;2;255;215;0mabc'' @ ESC # ''[0m''))) = 3 \<and>
   list_all (\<lambda>c. c < 256) (strip_ansi (codes (ESC # ''[38;2;255;215;0mabc'' @ ESC # ''[0m''))) \<and>
   center_text (wcswidth_of wcwidth_latin1) (codes (ESC # ''[38;2;255;215;0mabc'' @ ESC # ''[0m'')) 10
     = codes (''   '' @ (ESC # ''[38;2;255;215;0mabc'' @ ESC # ''[0m'') @ ''    '') \<and>
   wcswidth_of wcwidth_latin1
     (strip_ansi (center_text (wcswidth_of wcwidth_latin1)
        (codes (ESC # ''[38;2;255;215;0mabc'' @ ESC # ''[0m'')) 10)) = 10 \<and>
   center_text (wcswidth_of wcwidth_latin1) (codes (ESC # ''[38;2;255;215;0mabc'' @ ESC # ''[0m'')) 2
     = codes (ESC # ''[38;2;255;215;0mabc'' @ ESC # ''[0m'') \<and>
   ansi_at (codes (ESC # ''[0m'')) = Some [] \<and>
   strip_ansi (codes ''ab'' @ codes (ESC # ''[0m'') @ codes ''c'')
     = strip_ansi (codes ''ab'') @ strip_ansi (codes ''c'')"
proof -
  let ?text = "codes (ESC # ''[38;2;255;215;0mabc'' @ ESC # ''[0m'')"
  let ?m = "wcswidth_of wcwidth_latin1"
  have w: "?m (strip_ansi ?text) = 3"
    unfolding strip_ansi_gold codes_abc by (simp add: centre_eval)
  have z: "list_all (\<lambda>c. c < 256) (strip_ansi ?text)"
    unfolding strip_ansi_gold codes_abc by simp
  have e: "ansi_at (codes (ESC # ''[0m'')) = Some []"
    unfolding codes_reset by (simp add: centre_eval)
  have r: "replicate (nat ((10 - 3) div 2)) SPACE @ ?text
        @ replicate (nat (10 - (10 - 3) div 2 - 3)) SPACE
      = codes (''   '' @ (ESC # ''[38;2;255;215;0mabc'' @ ESC # ''[0m'') @ ''    '')"
    by (simp add: codes_def SPACE_def eval_nat_numeral)
  note t = center_text_centres [of 3 "?m" "?text" _ 10, OF w [symmetric] refl refl]
  note t' = center_text_centres [of 3 "?m" "?text" _ 2, OF w [symmetric] refl refl]
  have 1: "center_text ?m ?text 10
      = codes (''   '' @ (ESC # ''[38;2;255;215;0mabc'' @ ESC # ''[0m'') @ ''    '')"
    using t [THEN conjunct1] unfolding r [symmetric] by simp
  have 2: "?m (strip_ansi (center_text ?m ?text 10)) = 10"
    using t [THEN conjunct2, THEN conjunct1] z by (simp add: list_all_iff)
  have 3: "center_text ?m ?text 2 = ?text"
    using t' [THEN conjunct2, THEN conjunct2, THEN conjunct1] by simp
  have 4: "strip_ansi (codes ''ab'' @ codes (ESC # ''[0m'') @ codes ''c'')
     = strip_ansi (codes ''ab'') @ strip_ansi (codes ''c'')"
    using t [THEN conjunct2, THEN conjunct2, THEN conjunct2] e by blast
  from w z 1 2 3 e 4 show ?thesis
    by (intro conjI)
qed

text \<open>
  Each bound is needed. A text wider than the target is returned as it is: with \<open>W = 3\<close>
  and \<open>T = 1\<close> the result is 3 wide. A text with a control character has no width,
  \<open>W = -1\<close>: with \<open>T = 3\<close> it gets two spaces on each side and the result has no width
  either. And a text that ends with a zero width joiner, \<open>W = 1\<close>: with \<open>T = 5\<close> it gets two
  spaces on each side, the joiner takes the space after it out of the measure, and the
  result is 4 wide.
\<close>

theorem center_text_counterexample:
  "wcswidth_of wcwidth_latin1 (strip_ansi (codes ''abc'')) = 3 \<and>
   center_text (wcswidth_of wcwidth_latin1) (codes ''abc'') 1 = codes ''abc'' \<and>
   wcswidth_of wcwidth_latin1
     (strip_ansi (center_text (wcswidth_of wcwidth_latin1) (codes ''abc'') 1)) = 3 \<and>
   wcswidth_of wcwidth_latin1 (strip_ansi [BEL]) = - 1 \<and>
   center_text (wcswidth_of wcwidth_latin1) [BEL] 3 = codes ''  '' @ [BEL] @ codes ''  '' \<and>
   wcswidth_of wcwidth_latin1
     (strip_ansi (center_text (wcswidth_of wcwidth_latin1) [BEL] 3)) = - 1 \<and>
   wcswidth_of wcwidth_latin1 (strip_ansi (codes ''a'' @ [ZWJ])) = 1 \<and>
   center_text (wcswidth_of wcwidth_latin1) (codes ''a'' @ [ZWJ]) 5
     = codes ''  '' @ codes ''a'' @ [ZWJ] @ codes ''  '' \<and>
   wcswidth_of wcwidth_latin1
     (strip_ansi (center_text (wcswidth_of wcwidth_latin1) (codes ''a'' @ [ZWJ]) 5)) = 4"
  unfolding codes_abc codes_a codes_spaces by (simp_all add: centre_eval)

section \<open>Properties of the gradient\<close>

lemma length_segment_params: "length (segment_params k) = nat k"
  by (simp add: segment_params_def)

lemma segment_params_range:
  assumes "t \<in> set (segment_params k)"
  shows "0 \<le> t \<and> t < 1"
proof -
  from assms obtain j where j: "j < nat k" and t: "t = of_nat j / of_int k"
    by (auto simp: segment_params_def)
  from j have k: "0 < k" and "int j < k" by simp_all
  then have "real j < real_of_int k" and "0 < real_of_int k"
    by linarith+
  with t show ?thesis
    by simp
qed

lemma hd_segment_params: "0 < k \<Longrightarrow> hd (segment_params k) = 0"
  by (simp add: segment_params_def hd_map upt_conv_Cons)

lemma interpolate_0: "interpolate a b 0 = a"
  by (simp add: interpolate_def int_of_def)

lemma blend_0: "blend c d 0 = c"
  by (simp add: blend_def interpolate_0)

lemma length_concat_segments:
  "length (concat (map (segment_codes colors k) [i ..< n])) = (n - i) * nat k"
proof -
  have "map (length \<circ> segment_codes colors k) [i ..< n] = replicate (n - i) (nat k)"
    by (simp add: map_replicate_const segment_codes_def length_segment_params comp_def)
  then show ?thesis
    by (simp add: length_concat sum_list_replicate)
qed

lemma nth_concat_segments:
  assumes "i < n" and "0 < k"
  shows "concat (map (segment_codes colors k) [0 ..< n]) ! (i * nat k) = color_code (colors ! i)"
proof -
  have "[0 ..< i + (n - i)] = [0 ..< i] @ [i ..< i + (n - i)]"
    by (rule upt_add_eq_append) simp
  then have "[0 ..< n] = [0 ..< i] @ i # [Suc i ..< n]"
    using assms(1) by (simp add: upt_conv_Cons)
  then have "concat (map (segment_codes colors k) [0 ..< n])
      = concat (map (segment_codes colors k) [0 ..< i]) @ segment_codes colors k i
          @ concat (map (segment_codes colors k) [Suc i ..< n])"
    by simp
  moreover have "length (concat (map (segment_codes colors k) [0 ..< i])) = i * nat k"
    using length_concat_segments [of colors k 0 i] by simp
  moreover have "segment_codes colors k i \<noteq> []" "hd (segment_codes colors k i) = color_code (colors ! i)"
    using assms(2) hd_segment_params [OF assms(2)]
    by (simp_all add: segment_codes_def hd_map blend_0 segment_params_def)
  ultimately show ?thesis
    by (simp add: nth_append hd_conv_nth)
qed

lemma generate_gradient_eq:
  assumes "2 \<le> length colors"
  shows "generate_gradient colors steps =
    Inr (concat (map (segment_codes colors (max 1 (steps div (int (length colors) - 1))))
                   [0 ..< length colors - 1]))"
proof -
  have "nat (int (length colors) - 1) = length colors - 1"
    by simp
  with assms show ?thesis
    by (simp add: generate_gradient_def segment_codes_def [abs_def] Let_def)
qed

lemma length_GRADIENT_COLORS: "length GRADIENT_COLORS = 7"
  by (simp add: GRADIENT_COLORS_def)

text \<open>
  Claim C10, as the code has it. For \<open>n \<ge> 2\<close> colours and \<open>s \<ge> 1\<close> steps,
  \<^verbatim>\<open>generate_gradient\<close> returns \<open>(n - 1) * max 1 (s div (n - 1))\<close> codes, which is 78 for
  the seven colours of the banner and 80 steps. The parameter \<open>t\<close> of a segment is at
  least 0 and less than 1. The first code of every segment, at \<open>t = 0\<close>, is the colour
  the segment starts with: so the colour a segment ends with is in the gradient as the
  first code of the next segment. The statements do not depend on how the sums are
  rounded: at \<open>t = 0\<close> the floating point sum is the start colour too.
\<close>

theorem generate_gradient_length:
  assumes "2 \<le> length colors" and "1 \<le> steps"
  shows "(\<exists>gradient.
            generate_gradient colors steps = Inr gradient \<and>
            int (length gradient)
              = (int (length colors) - 1) * max 1 (steps div (int (length colors) - 1)) \<and>
            (\<forall>i<length colors - 1.
               gradient ! (i * nat (max 1 (steps div (int (length colors) - 1))))
                 = color_code (colors ! i))) \<and>
         (\<forall>t\<in>set (segment_params (max 1 (steps div (int (length colors) - 1)))).
            0 \<le> t \<and> t < 1) \<and>
         (\<exists>gradient. generate_gradient GRADIENT_COLORS 80 = Inr gradient \<and> length gradient = 78)"
proof -
  let ?k = "max 1 (steps div (int (length colors) - 1))"
  let ?g = "concat (map (segment_codes colors ?k) [0 ..< length colors - 1])"
  have k: "0 < ?k" by simp
  have "int (length ?g) = (int (length colors) - 1) * ?k"
    using assms(1) length_concat_segments [of colors ?k 0 "length colors - 1"]
    by (simp add: of_nat_diff)
  moreover have "\<forall>i<length colors - 1. ?g ! (i * nat ?k) = color_code (colors ! i)"
    using nth_concat_segments [OF _ k] by blast
  ultimately have 1: "\<exists>gradient.
            generate_gradient colors steps = Inr gradient \<and>
            int (length gradient) = (int (length colors) - 1) * ?k \<and>
            (\<forall>i<length colors - 1. gradient ! (i * nat ?k) = color_code (colors ! i))"
    using generate_gradient_eq [OF assms(1), of steps] by blast
  have "2 \<le> length GRADIENT_COLORS"
    by (simp add: length_GRADIENT_COLORS)
  from generate_gradient_eq [OF this, of 80]
  have 2: "\<exists>gradient. generate_gradient GRADIENT_COLORS 80 = Inr gradient \<and> length gradient = 78"
    by (simp add: length_concat_segments length_GRADIENT_COLORS)
  from 1 2 segment_params_range show ?thesis
    by blast
qed

theorem generate_gradient_length_witness:
  "2 \<le> length GRADIENT_COLORS \<and>
   (\<exists>gradient. generate_gradient GRADIENT_COLORS 80 = Inr gradient \<and>
      length gradient = 78 \<and> gradient ! 13 = color_code (75, 0, 130))"
proof -
  have 2: "2 \<le> length GRADIENT_COLORS" and 1: "(1::int) \<le> 80"
    by (simp_all add: length_GRADIENT_COLORS)
  from generate_gradient_length [OF 2 1, THEN conjunct1] obtain gradient where
    g: "generate_gradient GRADIENT_COLORS 80 = Inr gradient"
    "int (length gradient) = (int (length GRADIENT_COLORS) - 1) * max 1 (80 div (int (length GRADIENT_COLORS) - 1))"
    "\<forall>i<length GRADIENT_COLORS - 1.
       gradient ! (i * nat (max 1 (80 div (int (length GRADIENT_COLORS) - 1))))
         = color_code (GRADIENT_COLORS ! i)"
    by blast
  from g(2) have "length gradient = 78"
    by (simp add: length_GRADIENT_COLORS)
  moreover have "gradient ! (1 * nat (max 1 (80 div (int (length GRADIENT_COLORS) - 1))))
         = color_code (GRADIENT_COLORS ! 1)"
    by (rule g(3) [rule_format]) (simp add: length_GRADIENT_COLORS)
  then have "gradient ! 13 = color_code (75, 0, 130)"
    by (simp add: length_GRADIENT_COLORS GRADIENT_COLORS_def)
  ultimately show ?thesis
    using g(1) 2 by blast
qed

text \<open>
  The colour a segment ends with can be in the gradient: with three colours and two
  steps, \<open>(10, 10, 10)\<close> ends the first segment and is the second code.
\<close>

theorem generate_gradient_final_color_counterexample:
  "generate_gradient [(0, 0, 0), (10, 10, 10), (20, 20, 20)] 2
     = Inr [ESC # ''[38;2;0;0;0m'', ESC # ''[38;2;10;10;10m'']"
  by (simp add: generate_gradient_def segment_params_def blend_def interpolate_def int_of_def
      upt_rec color_code_def str_int_def)

end
